theory Spec2Isabelle
  imports Complex_Main "HOL-Library.Word"
begin

section \<open>Rasters\<close>

text \<open>
  A decoded raster as the canvas API exposes it through \<open>ImageData\<close>: a width, a height
  and a flat byte array holding four bytes (red, green, blue, alpha) per pixel. The bytes
  are those of a \<open>Uint8ClampedArray\<close>, hence \<open>8 word\<close>. A PNG \<open>Blob\<close> taken from a
  canvas is identified with the raster it encodes (PNG is lossless), and drawing an image
  at the origin of a fresh canvas of the same size is taken to reproduce its bytes.
\<close>

record image =
  width :: nat
  height :: nat
  data :: "8 word list"

datatype RemovalMode = White | Black | NoRemoval

datatype error = ContextError | NullBlob

text \<open>
  Reading a typed array outside its bounds yields \<open>undefined\<close>, and every comparison of
  \<open>undefined\<close> with a number is false.
\<close>

definition rd :: "8 word list \<Rightarrow> nat \<Rightarrow> 8 word option" where
  "rd xs i = (if i < length xs then Some (xs ! i) else None)"

fun gt :: "8 word option \<Rightarrow> real \<Rightarrow> bool" where
  "gt None t = False"
| "gt (Some v) t = (t < real (unat v))"

fun lt :: "8 word option \<Rightarrow> real \<Rightarrow> bool" where
  "lt None t = False"
| "lt (Some v) t = (real (unat v) < t)"

section \<open>Matting engine\<close>

text \<open>The body of the pixel loop of \<open>removeBackground\<close>: the flag computed for one pixel.\<close>

definition shouldBeTransparent ::
  "RemovalMode \<Rightarrow> real \<Rightarrow> 8 word option \<Rightarrow> 8 word option \<Rightarrow> 8 word option \<Rightarrow> bool" where
  "shouldBeTransparent mode threshold r g b =
     (if mode = White then gt r threshold \<and> gt g threshold \<and> gt b threshold
      else if mode = Black then lt r threshold \<and> lt g threshold \<and> lt b threshold
      else False)"

text \<open>
  \<open>for (let i = 0; i < data.length; i += 4)\<close>, started at \<open>i\<close>. A write past the end of
  a typed array is ignored, as \<open>list_update\<close> does.
\<close>

function pixel_loop :: "RemovalMode \<Rightarrow> real \<Rightarrow> nat \<Rightarrow> 8 word list \<Rightarrow> 8 word list" where
  "pixel_loop mode threshold i d =
     (if i < length d then
        pixel_loop mode threshold (i + 4)
          (if shouldBeTransparent mode threshold (rd d i) (rd d (i + 1)) (rd d (i + 2))
           then d[i + 3 := 0] else d)
      else d)"
  by pat_completeness auto
termination
  by (relation "measure (\<lambda>(mode, threshold, i, d). length d - i)") auto

declare pixel_loop.simps [simp del]

text \<open>
  \<open>putImageData\<close> followed by \<open>toBlob\<close>, on a canvas that shows the raster \<open>shown\<close>. The
  canvas keeps colour premultiplied by alpha: a pixel that it showed with some opacity and
  that is written with alpha 0 comes out as transparent black, and a pixel written as the
  canvas showed it comes out as it was. The pixel loop writes nothing but 0 into alpha
  bytes, so no other pixel is written.
\<close>

definition putImageData :: "8 word list \<Rightarrow> 8 word list \<Rightarrow> 8 word list" where
  "putImageData shown d =
     map (\<lambda>j. if j div 4 * 4 + 3 < length d \<and> d ! (j div 4 * 4 + 3) = 0
                  \<and> rd shown (j div 4 * 4 + 3) \<noteq> Some 0
               then 0 else d ! j)
       [0..<length d]"

text \<open>
  \<open>removeBackground\<close>. The flag \<open>ctx\<close> says whether the platform hands out a 2D context
  for the canvas; without one the function throws. \<open>getImageData\<close> returns the bytes of
  the raster just drawn, the loop works on that array, and the blob returned is the canvas
  after the array has been written back.
\<close>

definition removeBackground :: "bool \<Rightarrow> image \<Rightarrow> RemovalMode \<Rightarrow> real \<Rightarrow> error + image" where
  "removeBackground ctx img mode threshold =
     (if \<not> ctx then Inl ContextError
      else if mode \<noteq> NoRemoval
        then Inr (img\<lparr>data := putImageData (data img) (pixel_loop mode threshold 0 (data img))\<rparr>)
        else Inr img)"

section \<open>JavaScript numbers\<close>

text \<open>
  A JavaScript number is an IEEE-754 double, and every arithmetic operation returns the
  exact result rounded to the nearest double, a tie going to the even significand.
  \<open>fl\<close> is that rounding: it keeps 53 significant bits. The exponent is left unbounded
  (no overflow to \<open>Infinity\<close>, no subnormal numbers), which the pixel counts and ratios
  of this program never reach. A number is a real here, and an operation of the code is
  \<open>fl\<close> of the exact operation. Whole numbers below \<open>2\<^sup>5\<^sup>3\<close> in size are doubles.
\<close>

text \<open>The number of halvings that bring a number from 1 upwards below 2.\<close>

function halvings :: "real \<Rightarrow> int" where
  "halvings x = (if x < 2 then 0 else halvings (x / 2) + 1)"
  by pat_completeness auto
termination
proof (relation "measure (\<lambda>x. nat \<lfloor>x\<rfloor>)")
  show "wf (measure (\<lambda>x. nat \<lfloor>x\<rfloor>))" by simp
next
  fix x :: real assume "\<not> x < 2"
  then have "x / 2 \<le> x - 1" by simp
  moreover have "x - 1 < of_int \<lfloor>x\<rfloor>" by linarith
  ultimately have "x / 2 < of_int \<lfloor>x\<rfloor>" by linarith
  then have "\<lfloor>x / 2\<rfloor> < \<lfloor>x\<rfloor>" by (simp add: floor_less_iff)
  moreover have "0 < \<lfloor>x\<rfloor>" using \<open>\<not> x < 2\<close> by simp
  ultimately show "(x / 2, x) \<in> measure (\<lambda>x. nat \<lfloor>x\<rfloor>)" by simp
qed

text \<open>Minus the number of doublings that bring a positive number below 1 up to 1.\<close>

function doublings :: "real \<Rightarrow> int" where
  "doublings x = (if x \<le> 0 \<or> 1 \<le> x then 0 else doublings (x * 2) - 1)"
  by pat_completeness auto
termination
proof (relation "measure (\<lambda>x. nat \<lceil>1 / x\<rceil>)")
  show "wf (measure (\<lambda>x. nat \<lceil>1 / x\<rceil>))" by simp
next
  fix x :: real assume "\<not> (x \<le> 0 \<or> 1 \<le> x)"
  then have x: "0 < x" "x < 1" by simp_all
  define y where "y = 1 / x"
  have y: "1 < y" using x by (simp add: y_def)
  then have c2: "2 \<le> \<lceil>y\<rceil>" by linarith
  then have a: "(2::real) \<le> of_int \<lceil>y\<rceil>" by linarith
  have b: "y \<le> of_int \<lceil>y\<rceil>" by (rule le_of_int_ceiling)
  from a b have "y / 2 \<le> of_int \<lceil>y\<rceil> - 1" by linarith
  then have "y / 2 \<le> of_int (\<lceil>y\<rceil> - 1)" by simp
  then have "\<lceil>y / 2\<rceil> \<le> \<lceil>y\<rceil> - 1" by (simp only: ceiling_le_iff)
  moreover have "1 / (x * 2) = y / 2" unfolding y_def by (rule divide_divide_eq_left [symmetric])
  ultimately have "\<lceil>1 / (x * 2)\<rceil> \<le> \<lceil>1 / x\<rceil> - 1"
    unfolding y_def by (simp only:)
  with c2 have "nat \<lceil>1 / (x * 2)\<rceil> < nat \<lceil>1 / x\<rceil>"
    unfolding y_def by linarith
  then show "(x * 2, x) \<in> measure (\<lambda>x. nat \<lceil>1 / x\<rceil>)"
    unfolding in_measure .
qed

declare halvings.simps [simp del] doublings.simps [simp del]

text \<open>The exponent \<open>e\<close> with \<open>2 ^ e \<le> \<bar>x\<bar> < 2 ^ (e + 1)\<close>.\<close>

definition binade :: "real \<Rightarrow> int" where
  "binade x = (if 1 \<le> \<bar>x\<bar> then halvings \<bar>x\<bar> else doublings \<bar>x\<bar>)"

text \<open>The nearest integer, a tie going to the even one.\<close>

definition round_even :: "real \<Rightarrow> int" where
  "round_even y =
     (let n = \<lfloor>y\<rfloor>; f = y - of_int n
      in if f < 1 / 2 then n else if 1 / 2 < f then n + 1 else if even n then n else n + 1)"

text \<open>The spacing of the doubles in the binade of \<open>x\<close>, and the double nearest to \<open>x\<close>.\<close>

definition ulp :: "real \<Rightarrow> real" where
  "ulp x = 2 powi (binade x - 52)"

definition fl :: "real \<Rightarrow> real" where
  "fl x = (if x = 0 then 0 else of_int (round_even (x / ulp x)) * ulp x)"

section \<open>Geometric transform engine\<close>

text \<open>
  One cell cut by \<open>cropImageGrid\<close>: the size of its canvas and the source rectangle of
  the single \<open>drawImage\<close> call. Assigning a fractional number to \<open>canvas.width\<close>
  drops the fraction; the destination rectangle is \<open>(0, 0, cellWidth, cellHeight)\<close>.
\<close>

record cell =
  cell_canvas_width :: nat
  cell_canvas_height :: nat
  sx :: real
  sy :: real
  sWidth :: real
  sHeight :: real

definition cut_cell :: "real \<Rightarrow> real \<Rightarrow> nat \<Rightarrow> nat \<Rightarrow> cell" where
  "cut_cell cellWidth cellHeight r c =
     \<lparr>cell_canvas_width = nat \<lfloor>cellWidth\<rfloor>, cell_canvas_height = nat \<lfloor>cellHeight\<rfloor>,
      sx = fl (real c * cellWidth), sy = fl (real r * cellHeight),
      sWidth = cellWidth, sHeight = cellHeight\<rparr>"

text \<open>
  \<open>canvas.toBlob\<close>: a canvas that is 0 wide or 0 high has no pixels and yields \<open>null\<close>
  (\<open>None\<close>); the code pushes it all the same.
\<close>

definition toBlob :: "cell \<Rightarrow> cell option" where
  "toBlob k = (if cell_canvas_width k = 0 \<or> cell_canvas_height k = 0 then None else Some k)"

text \<open>
  The inner loop \<open>for (let c = 0; c < cols; c++)\<close>, started at \<open>c\<close>. \<open>ctx r c\<close> says
  whether the canvas of cell \<open>(r, c)\<close> gets a 2D context; a cell without one is skipped.
\<close>

function col_loop ::
  "(nat \<Rightarrow> nat \<Rightarrow> bool) \<Rightarrow> real \<Rightarrow> real \<Rightarrow> nat \<Rightarrow> nat \<Rightarrow> nat \<Rightarrow> cell option list
     \<Rightarrow> cell option list" where
  "col_loop ctx cellWidth cellHeight cols r c blobs =
     (if c < cols then
        (if \<not> ctx r c then col_loop ctx cellWidth cellHeight cols r (c + 1) blobs
         else col_loop ctx cellWidth cellHeight cols r (c + 1)
                (blobs @ [toBlob (cut_cell cellWidth cellHeight r c)]))
      else blobs)"
  by pat_completeness auto
termination
  by (relation "measure (\<lambda>(ctx, cellWidth, cellHeight, cols, r, c, blobs). cols - c)") auto

declare col_loop.simps [simp del]

text \<open>The outer loop \<open>for (let r = 0; r < rows; r++)\<close>, started at \<open>r\<close>.\<close>

function row_loop ::
  "(nat \<Rightarrow> nat \<Rightarrow> bool) \<Rightarrow> real \<Rightarrow> real \<Rightarrow> nat \<Rightarrow> nat \<Rightarrow> nat \<Rightarrow> cell option list
     \<Rightarrow> cell option list" where
  "row_loop ctx cellWidth cellHeight rows cols r blobs =
     (if r < rows then
        row_loop ctx cellWidth cellHeight rows cols (r + 1)
          (col_loop ctx cellWidth cellHeight cols r 0 blobs)
      else blobs)"
  by pat_completeness auto
termination
  by (relation "measure (\<lambda>(ctx, cellWidth, cellHeight, rows, cols, r, blobs). rows - r)") auto

declare row_loop.simps [simp del]

definition cropImageGrid ::
  "(nat \<Rightarrow> nat \<Rightarrow> bool) \<Rightarrow> image \<Rightarrow> nat \<Rightarrow> nat \<Rightarrow> cell option list" where
  "cropImageGrid ctx img rows cols =
     (let cellWidth = fl (real (width img) / real cols);
          cellHeight = fl (real (height img) / real rows)
      in row_loop ctx cellWidth cellHeight rows cols 0 [])"

text \<open>
  The result of \<open>resizeToLineSpec\<close>: the size of the cleared canvas and the rectangle of
  the single \<open>drawImage\<close> call that paints the whole source raster into it.
\<close>

record resized =
  canvas_width :: nat
  canvas_height :: nat
  source :: image
  draw_x :: real
  draw_y :: real
  draw_w :: real
  draw_h :: real

text \<open>
  \<open>resizeToLineSpec\<close>. The callers pass \<open>processedBlob!\<close>, which can be \<open>null\<close> at run
  time; \<open>URL.createObjectURL(null)\<close> throws inside the promise, which then rejects.
\<close>

definition resizeToLineSpec ::
  "bool \<Rightarrow> image option \<Rightarrow> nat \<Rightarrow> nat \<Rightarrow> real \<Rightarrow> error + resized" where
  "resizeToLineSpec ctx blob targetWidth targetHeight padding =
     (case blob of
        None \<Rightarrow> Inl NullBlob
      | Some img \<Rightarrow>
          if \<not> ctx then Inl ContextError
          else
            let usableW = fl (real targetWidth - fl (padding * 2));
                usableH = fl (real targetHeight - fl (padding * 2));
                scale = min (fl (usableW / real (width img))) (fl (usableH / real (height img)));
                drawW = fl (real (width img) * scale);
                drawH = fl (real (height img) * scale);
                x = fl (fl (real targetWidth - drawW) / 2);
                y = fl (fl (real targetHeight - drawH) / 2)
            in Inr \<lparr>canvas_width = targetWidth, canvas_height = targetHeight, source = img,
                     draw_x = x, draw_y = y, draw_w = drawW, draw_h = drawH\<rparr>)"

section \<open>Touch-up session: the undo history\<close>

text \<open>
  The part of the state of \<open>StickerEditor\<close> that the undo history touches: the list of
  snapshots, the current index (initially \<open>-1\<close>) and the raster held by the canvas.
  A snapshot is whatever \<open>getImageData\<close> returns; its type is left open.
\<close>

record 'a editor =
  history :: "'a list"
  historyIdx :: int
  canvas :: 'a

definition initial :: "'a \<Rightarrow> 'a editor" where
  "initial blank = \<lparr>history = [], historyIdx = - 1, canvas = blank\<rparr>"

text \<open>\<open>prev.slice(0, end)\<close>: a negative \<open>end\<close> counts from the end of the array.\<close>

definition slice0 :: "'a list \<Rightarrow> int \<Rightarrow> 'a list" where
  "slice0 xs e = (if e < 0 then take (nat (int (length xs) + e)) xs else take (nat e) xs)"

text \<open>
  \<open>pushHistory\<close>. \<open>ready\<close> says that the canvas is mounted and hands out its context;
  otherwise the function returns at once. The index the callback closed over is the
  current one (the callback is rebuilt whenever the index changes). \<open>next.shift()\<close>
  drops the first element.
\<close>

definition pushHistory :: "bool \<Rightarrow> 'a editor \<Rightarrow> 'a editor" where
  "pushHistory ready st =
     (if \<not> ready then st
      else
        let snapshot = canvas st;
            next = slice0 (history st) (historyIdx st + 1);
            shifted = (if 15 < length next then tl next else next)
        in st\<lparr>history := shifted @ [snapshot], historyIdx := min (historyIdx st + 1) 14\<rparr>)"

text \<open>
  \<open>handleUndo\<close>. Reading \<open>history[prevIdx]\<close> outside the array gives \<open>undefined\<close>, on
  which \<open>putImageData\<close> throws before the index is set.
\<close>

definition handleUndo :: "bool \<Rightarrow> 'a editor \<Rightarrow> 'a editor" where
  "handleUndo ready st =
     (if 0 < historyIdx st then
        let prevIdx = historyIdx st - 1 in
        if ready \<and> nat prevIdx < length (history st)
        then st\<lparr>canvas := history st ! nat prevIdx, historyIdx := prevIdx\<rparr>
        else st
      else st)"

text \<open>
  A brush gesture leaves some raster on the canvas; on pointer-up, \<open>handleUp\<close> commits it
  if a drawing gesture was active. \<open>applyAuto\<close> repaints the canvas with the matted
  raster and commits it, as it does when the session opens; it is taken to finish before
  the next event, so that it commits with the current index.
\<close>

definition draw :: "'a \<Rightarrow> 'a editor \<Rightarrow> 'a editor" where
  "draw raster st = st\<lparr>canvas := raster\<rparr>"

definition handleUp :: "bool \<Rightarrow> bool \<Rightarrow> 'a editor \<Rightarrow> 'a editor" where
  "handleUp isDrawing ready st = (if isDrawing then pushHistory ready st else st)"

definition applyAuto :: "'a \<Rightarrow> 'a editor \<Rightarrow> 'a editor" where
  "applyAuto matted st = pushHistory True (st\<lparr>canvas := matted\<rparr>)"

text \<open>A run of committed brush edits, each leaving the given raster.\<close>

fun edits :: "'a list \<Rightarrow> 'a editor \<Rightarrow> 'a editor" where
  "edits [] st = st"
| "edits (raster # rest) st = edits rest (handleUp True True (draw raster st))"

section \<open>Sticker collection\<close>

datatype status = Pending | Processing | Done | Error

record Settings =
  mode :: RemovalMode
  threshold :: real

text \<open>
  \<open>StickerItem\<close>. The field \<open>id\<close> is called \<open>item_id\<close> here. An object URL stands for the
  raster it decodes to, an optional flag that is absent counts as false.
\<close>

record StickerItem =
  item_id :: string
  originalFile :: "image option"
  previewUrl :: image
  processedBlob :: "image option"
  processedUrl :: "image option"
  status :: status
  isMain :: bool
  isTab :: bool
  settings :: Settings

datatype StickerSetType = Standard | Fullscreen

record StickerPackConfig =
  count :: nat
  type :: StickerSetType

text \<open>\<open>createStickerItem\<close>; the random identifier is supplied by the caller.\<close>

definition createStickerItem :: "string \<Rightarrow> image \<Rightarrow> image option \<Rightarrow> image option \<Rightarrow> StickerItem" where
  "createStickerItem ident url file blob =
     \<lparr>item_id = ident, originalFile = file, previewUrl = url, processedBlob = blob,
      processedUrl = (if blob \<noteq> None then Some url else None),
      status = (if blob \<noteq> None then Done else Pending),
      isMain = False, isTab = False,
      settings = \<lparr>mode = White, threshold = 240\<rparr>\<rparr>"

text \<open>\<open>handleFileUpload\<close>: one pending item per file, appended.\<close>

definition handleFileUpload :: "(string \<times> image) list \<Rightarrow> StickerItem list \<Rightarrow> StickerItem list" where
  "handleFileUpload files stickers =
     stickers @ map (\<lambda>(ident, file). createStickerItem ident file (Some file) None) files"

text \<open>
  \<open>handleGridUpload\<close>, from the cells already cut: one done item per cell, the first one
  flagged main and tab when the collection is empty. The list the handler closed over is
  taken to be the list it appends to (no other update arrives while the image loads).
\<close>

definition handleGridUpload :: "(string \<times> image) list \<Rightarrow> StickerItem list \<Rightarrow> StickerItem list" where
  "handleGridUpload blobs stickers =
     stickers @
     map (\<lambda>(idx, (ident, blob)).
            let item = createStickerItem ident blob None (Some blob)
            in if length stickers = 0 \<and> idx = 0 then item\<lparr>isMain := True, isTab := True\<rparr>
               else item)
         (zip [0..<length blobs] blobs)"

text \<open>The three updates of the collection made by \<open>processOne\<close>.\<close>

definition markProcessing :: "string \<Rightarrow> StickerItem list \<Rightarrow> StickerItem list" where
  "markProcessing ident prev =
     map (\<lambda>s. if item_id s = ident then s\<lparr>status := Processing\<rparr> else s) prev"

definition markDone :: "string \<Rightarrow> image \<Rightarrow> StickerItem list \<Rightarrow> StickerItem list" where
  "markDone ident blob prev =
     map (\<lambda>s. if item_id s = ident
               then s\<lparr>status := Done, processedBlob := Some blob, processedUrl := Some blob\<rparr>
               else s) prev"

definition markError :: "string \<Rightarrow> StickerItem list \<Rightarrow> StickerItem list" where
  "markError ident prev =
     map (\<lambda>s. if item_id s = ident then s\<lparr>status := Error\<rparr> else s) prev"

text \<open>
  \<open>processOne\<close>, run to its end without anything happening in between. The item is
  looked up in the list \<open>seen\<close> that the function closed over; the updates go to the
  current list.
\<close>

definition processOne :: "bool \<Rightarrow> StickerItem list \<Rightarrow> string \<Rightarrow> StickerItem list \<Rightarrow> StickerItem list" where
  "processOne ctx seen ident prev =
     (case find (\<lambda>s. item_id s = ident) seen of
        None \<Rightarrow> prev
      | Some item \<Rightarrow>
          (case removeBackground ctx (previewUrl item) (mode (settings item))
                  (threshold (settings item)) of
             Inr blob \<Rightarrow> markDone ident blob (markProcessing ident prev)
           | Inl e \<Rightarrow> markError ident (markProcessing ident prev)))"

text \<open>\<open>processAll\<close>: every item of the list it closed over that is not done, in order.\<close>

definition processAll :: "(string \<Rightarrow> bool) \<Rightarrow> StickerItem list \<Rightarrow> StickerItem list" where
  "processAll ctx stickers =
     foldl (\<lambda>prev s. if status s \<noteq> Done then processOne (ctx (item_id s)) stickers (item_id s) prev
                      else prev)
       stickers stickers"

datatype role = Main | Tab

definition setRole :: "string \<Rightarrow> role \<Rightarrow> StickerItem list \<Rightarrow> StickerItem list" where
  "setRole ident r prev =
     map (\<lambda>s. if r = Main then s\<lparr>isMain := (item_id s = ident)\<rparr>
               else if r = Tab then s\<lparr>isTab := (item_id s = ident)\<rparr>
               else s) prev"

definition removeItem :: "string \<Rightarrow> StickerItem list \<Rightarrow> StickerItem list" where
  "removeItem ident prev = filter (\<lambda>it. item_id it \<noteq> ident) prev"

text \<open>\<open>onSave\<close> of the touch-up session opened on the item \<open>ident\<close>.\<close>

definition onSave :: "string \<Rightarrow> image \<Rightarrow> RemovalMode \<Rightarrow> real \<Rightarrow> StickerItem list \<Rightarrow> StickerItem list" where
  "onSave ident blob m t prev =
     map (\<lambda>s. if item_id s = ident
               then s\<lparr>processedBlob := Some blob, processedUrl := Some blob, status := Done,
                      settings := \<lparr>mode = m, threshold = t\<rparr>\<rparr>
               else s) prev"

text \<open>
  The updates of the collection, one constructor per \<open>setStickers\<close> call of the
  component, and the collection after a sequence of them.
\<close>

datatype update =
    FileUpload "(string \<times> image) list"
  | GridUpload "(string \<times> image) list"
  | ProcessStart string
  | ProcessDone string image
  | ProcessFail string
  | SetRole string role
  | Remove string
  | Save string image RemovalMode real

fun apply_update :: "update \<Rightarrow> StickerItem list \<Rightarrow> StickerItem list" where
  "apply_update (FileUpload files) prev = handleFileUpload files prev"
| "apply_update (GridUpload blobs) prev = handleGridUpload blobs prev"
| "apply_update (ProcessStart ident) prev = markProcessing ident prev"
| "apply_update (ProcessDone ident blob) prev = markDone ident blob prev"
| "apply_update (ProcessFail ident) prev = markError ident prev"
| "apply_update (SetRole ident r) prev = setRole ident r prev"
| "apply_update (Remove ident) prev = removeItem ident prev"
| "apply_update (Save ident blob m t) prev = onSave ident blob m t prev"

fun run :: "update list \<Rightarrow> StickerItem list \<Rightarrow> StickerItem list" where
  "run [] stickers = stickers"
| "run (u # us) stickers = run us (apply_update u stickers)"

text \<open>
  A sequence of updates in which processing starts, and fails, only on items that are
  not done at that moment.
\<close>

fun spares_done :: "update \<Rightarrow> StickerItem list \<Rightarrow> bool" where
  "spares_done (ProcessStart ident) prev = list_all (\<lambda>s. item_id s = ident \<longrightarrow> status s \<noteq> Done) prev"
| "spares_done (ProcessFail ident) prev = list_all (\<lambda>s. item_id s = ident \<longrightarrow> status s \<noteq> Done) prev"
| "spares_done u prev = True"

fun guarded :: "update list \<Rightarrow> StickerItem list \<Rightarrow> bool" where
  "guarded [] stickers = True"
| "guarded (u # us) stickers = (spares_done u stickers \<and> guarded us (apply_update u stickers))"

text \<open>The two invariants of the collection that the properties below speak about.\<close>

definition done_has_blob :: "StickerItem list \<Rightarrow> bool" where
  "done_has_blob ss \<longleftrightarrow> (\<forall>s \<in> set ss. status s = Done \<longrightarrow> processedBlob s \<noteq> None)"

definition blob_iff_done :: "StickerItem list \<Rightarrow> bool" where
  "blob_iff_done ss \<longleftrightarrow> (\<forall>s \<in> set ss. (processedBlob s \<noteq> None) = (status s = Done))"

section \<open>Export\<close>

text \<open>\<open>Number.prototype.toString\<close> on a natural number, and \<open>String.prototype.padStart\<close>.\<close>

function toString :: "nat \<Rightarrow> string" where
  "toString n = (if n < 10 then [''0123456789'' ! n]
                 else toString (n div 10) @ [''0123456789'' ! (n mod 10)])"
  by pat_completeness auto
termination
  by (relation "measure (\<lambda>n. n)") auto

declare toString.simps [simp del]

definition padStart :: "string \<Rightarrow> nat \<Rightarrow> char \<Rightarrow> string" where
  "padStart s n c = replicate (n - length s) c @ s"

definition filename :: "nat \<Rightarrow> string" where
  "filename i = padStart (toString (i + 1)) 2 (CHR ''0'') @ ''.png''"

text \<open>The state of the component that \<open>handleExport\<close> reads and writes.\<close>

record app =
  stickers :: "StickerItem list"
  config :: StickerPackConfig
  isExporting :: bool
  exportProgress :: nat

datatype notice = ProcessFirst | ExportFailed

text \<open>
  What a call of \<open>handleExport\<close> leaves behind: the \<open>alert\<close> shown if any, the archive
  handed to \<open>saveAs\<close> if any (its name and the entries of its folder, in the order
  they were added), and the state of the component when the call has returned.
\<close>

record exported =
  alert :: "notice option"
  saved :: "(string \<times> (string \<times> resized) list) option"
  after :: app

definition doneStickers :: "StickerItem list \<Rightarrow> StickerItem list" where
  "doneStickers ss = filter (\<lambda>s. status s = Done \<and> processedBlob s \<noteq> None) ss"

text \<open>
  \<open>stickers.find(s => s.isMain) || doneStickers[0]\<close>, and the same for the tab image;
  \<open>None\<close> is \<open>undefined\<close>.
\<close>

definition mainItem :: "StickerItem list \<Rightarrow> StickerItem option" where
  "mainItem ss =
     (case find isMain ss of
        Some s \<Rightarrow> Some s
      | None \<Rightarrow> (case doneStickers ss of [] \<Rightarrow> None | s # rest \<Rightarrow> Some s))"

definition tabItem :: "StickerItem list \<Rightarrow> StickerItem option" where
  "tabItem ss =
     (case find isTab ss of
        Some s \<Rightarrow> Some s
      | None \<Rightarrow> (case doneStickers ss of [] \<Rightarrow> None | s # rest \<Rightarrow> Some s))"

text \<open>
  The loop over the first \<open>exportCount\<close> done items, started at \<open>i\<close>. \<open>ctx k\<close> says whether
  the \<open>k\<close>-th call of \<open>resizeToLineSpec\<close> of this export gets its context. A rejected
  resize leaves the loop at once. The loop is only entered with
  \<open>exportCount \<le> length done\<close>.
\<close>

function sticker_loop ::
  "(nat \<Rightarrow> bool) \<Rightarrow> StickerItem list \<Rightarrow> nat \<Rightarrow> nat \<Rightarrow> nat \<Rightarrow> nat \<Rightarrow> (string \<times> resized) list
     \<Rightarrow> error + (string \<times> resized) list" where
  "sticker_loop ctx done exportCount targetW targetH i folder =
     (if i < exportCount then
        (case resizeToLineSpec (ctx i) (processedBlob (done ! i)) targetW targetH 10 of
           Inl e \<Rightarrow> Inl e
         | Inr stickerBlob \<Rightarrow>
             sticker_loop ctx done exportCount targetW targetH (i + 1)
               (folder @ [(filename i, stickerBlob)]))
      else Inr folder)"
  by pat_completeness auto
termination
  by (relation "measure (\<lambda>(ctx, done, exportCount, targetW, targetH, i, folder). exportCount - i)")
    auto

declare sticker_loop.simps [simp del]

text \<open>
  \<open>handleExport\<close>. The progress values set on the way are not recorded; \<open>after\<close> holds
  the flags as the \<open>finally\<close> block leaves them. Reading \<open>processedBlob\<close> of
  \<open>undefined\<close> throws inside the \<open>try\<close> block like a rejected resize.
\<close>

definition handleExport :: "(nat \<Rightarrow> bool) \<Rightarrow> app \<Rightarrow> exported" where
  "handleExport ctx st =
     (let done = doneStickers (stickers st) in
      if length done = 0 then \<lparr>alert = Some ProcessFirst, saved = None, after = st\<rparr>
      else
        let exportCount = min (length done) (count (config st));
            targetW = (if type (config st) = Fullscreen then 480 else 370);
            targetH = (if type (config st) = Fullscreen then 480 else 320);
            mainSize = (if type (config st) = Fullscreen then 480 else 240);
            finally = st\<lparr>isExporting := False, exportProgress := 0\<rparr>;
            failed = \<lparr>alert = Some ExportFailed, saved = None, after = finally\<rparr>
        in
          case sticker_loop ctx done exportCount targetW targetH 0 [] of
            Inl e \<Rightarrow> failed
          | Inr folder \<Rightarrow>
              (case mainItem (stickers st) of
                 None \<Rightarrow> failed
               | Some m \<Rightarrow>
                   (case resizeToLineSpec (ctx exportCount) (processedBlob m) mainSize mainSize 10 of
                      Inl e \<Rightarrow> failed
                    | Inr mainBlob \<Rightarrow>
                        (case tabItem (stickers st) of
                           None \<Rightarrow> failed
                         | Some t \<Rightarrow>
                             (case resizeToLineSpec (ctx (exportCount + 1)) (processedBlob t) 96 74 10 of
                                Inl e \<Rightarrow> failed
                              | Inr tabBlob \<Rightarrow>
                                  \<lparr>alert = None,
                                   saved = Some (''LINE_Stickers_'' @ toString exportCount @ ''.zip'',
                                     folder @ [(''main.png'', mainBlob), (''tab.png'', tabBlob)]),
                                   after = finally\<rparr>)))))"

section \<open>Properties of the matting engine\<close>

lemma length_pixel_loop: "length (pixel_loop m t i d) = length d"
proof (induction m t i d rule: pixel_loop.induct)
  case (1 m t i d)
  show ?case
  proof (cases "i < length d")
    case True
    with "1.IH" show ?thesis
      by (subst pixel_loop.simps) simp
  next
    case False
    then show ?thesis
      by (subst pixel_loop.simps) simp
  qed
qed

lemma pixel_loop_before: "j < i + 3 \<Longrightarrow> pixel_loop m t i d ! j = d ! j"
proof (induction m t i d arbitrary: j rule: pixel_loop.induct)
  case (1 m t i d)
  show ?case
  proof (cases "i < length d")
    case True
    have "pixel_loop m t i d ! j =
          (if shouldBeTransparent m t (rd d i) (rd d (i + 1)) (rd d (i + 2))
           then d[i + 3 := 0] else d) ! j"
      using True "1.IH" [of j] "1.prems"
      by (subst pixel_loop.simps) simp
    also have "\<dots> = d ! j"
      using "1.prems" by simp
    finally show ?thesis .
  next
    case False
    then show ?thesis
      by (subst pixel_loop.simps) simp
  qed
qed

lemma rd_update_other: "j \<noteq> k \<Longrightarrow> rd (d[k := v]) j = rd d j"
  by (simp add: rd_def)

lemma pixel_loop_alpha:
  "i + 4 * k + 3 < length d \<Longrightarrow>
   pixel_loop m t i d ! (i + 4 * k + 3) =
     (if shouldBeTransparent m t (rd d (i + 4 * k)) (rd d (i + 4 * k + 1)) (rd d (i + 4 * k + 2))
      then 0 else d ! (i + 4 * k + 3))"
proof (induction m t i d arbitrary: k rule: pixel_loop.induct)
  case (1 m t i d)
  let ?c = "shouldBeTransparent m t (rd d i) (rd d (i + 1)) (rd d (i + 2))"
  let ?d' = "if ?c then d[i + 3 := 0] else d"
  from "1.prems" have lt: "i < length d" by simp
  have unfold: "pixel_loop m t i d = pixel_loop m t (i + 4) ?d'"
    using lt by (subst pixel_loop.simps) simp
  show ?case
  proof (cases k)
    case 0
    have "pixel_loop m t (i + 4) ?d' ! (i + 3) = ?d' ! (i + 3)"
      by (rule pixel_loop_before) simp
    with 0 unfold "1.prems" show ?thesis by simp
  next
    case (Suc k')
    have idx: "i + 4 * k + 3 = (i + 4) + 4 * k' + 3"
      and i0: "i + 4 * k = (i + 4) + 4 * k'"
      and i1: "i + 4 * k + 1 = (i + 4) + 4 * k' + 1"
      and i2: "i + 4 * k + 2 = (i + 4) + 4 * k' + 2"
      using Suc by simp_all
    have len: "(i + 4) + 4 * k' + 3 < length ?d'"
      using "1.prems" Suc by simp
    have "pixel_loop m t (i + 4) ?d' ! ((i + 4) + 4 * k' + 3) =
          (if shouldBeTransparent m t (rd ?d' ((i + 4) + 4 * k'))
                (rd ?d' ((i + 4) + 4 * k' + 1)) (rd ?d' ((i + 4) + 4 * k' + 2))
           then 0 else ?d' ! ((i + 4) + 4 * k' + 3))"
      using "1.IH" [OF lt len] .
    moreover have "rd ?d' ((i + 4) + 4 * k') = rd d ((i + 4) + 4 * k')"
      "rd ?d' ((i + 4) + 4 * k' + 1) = rd d ((i + 4) + 4 * k' + 1)"
      "rd ?d' ((i + 4) + 4 * k' + 2) = rd d ((i + 4) + 4 * k' + 2)"
      "?d' ! ((i + 4) + 4 * k' + 3) = d ! ((i + 4) + 4 * k' + 3)"
      by (simp_all add: rd_update_other)
    ultimately show ?thesis
      unfolding unfold idx i0 i1 i2 by simp
  qed
qed

lemma pixel_loop_other:
  "(\<And>k. j \<noteq> i + 4 * k + 3) \<Longrightarrow> pixel_loop m t i d ! j = d ! j"
proof (induction m t i d rule: pixel_loop.induct)
  case (1 m t i d)
  show ?case
  proof (cases "i < length d")
    case True
    let ?d' = "if shouldBeTransparent m t (rd d i) (rd d (i + 1)) (rd d (i + 2))
               then d[i + 3 := 0] else d"
    have next_ok: "j \<noteq> (i + 4) + 4 * k + 3" for k
      using "1.prems" [of "Suc k"] by simp
    have "pixel_loop m t i d ! j = pixel_loop m t (i + 4) ?d' ! j"
      using True by (subst pixel_loop.simps) simp
    also have "\<dots> = ?d' ! j"
      using "1.IH" [OF True] next_ok by blast
    also have "\<dots> = d ! j"
      using "1.prems" [of 0] by simp
    finally show ?thesis .
  next
    case False
    then show ?thesis
      by (subst pixel_loop.simps) simp
  qed
qed

lemma pixel_loop_colour:
  assumes "j mod 4 \<noteq> 3"
  shows "pixel_loop m t 0 d ! j = d ! j"
proof (rule pixel_loop_other)
  fix k
  show "j \<noteq> 0 + 4 * k + 3"
  proof
    assume "j = 0 + 4 * k + 3"
    then have "j mod 4 = 3" by presburger
    with assms show False by simp
  qed
qed

lemma shouldBeTransparent_in_range:
  "shouldBeTransparent m t (Some r) (Some g) (Some b) \<longleftrightarrow>
     m = White \<and> t < real (unat r) \<and> t < real (unat g) \<and> t < real (unat b) \<or>
     m = Black \<and> real (unat r) < t \<and> real (unat g) < t \<and> real (unat b) < t"
  by (cases m) (simp_all add: shouldBeTransparent_def)

lemma pixel_loop_pixel:
  assumes "4 * k + 3 < length d"
  shows "pixel_loop m t 0 d ! (4 * k) = d ! (4 * k)"
    and "pixel_loop m t 0 d ! (4 * k + 1) = d ! (4 * k + 1)"
    and "pixel_loop m t 0 d ! (4 * k + 2) = d ! (4 * k + 2)"
    and "pixel_loop m t 0 d ! (4 * k + 3) =
           (if m = White \<and> t < real (unat (d ! (4 * k))) \<and> t < real (unat (d ! (4 * k + 1)))
                 \<and> t < real (unat (d ! (4 * k + 2)))
               \<or> m = Black \<and> real (unat (d ! (4 * k))) < t \<and> real (unat (d ! (4 * k + 1))) < t
                 \<and> real (unat (d ! (4 * k + 2))) < t
            then 0 else d ! (4 * k + 3))"
proof -
  show "pixel_loop m t 0 d ! (4 * k) = d ! (4 * k)"
    by (rule pixel_loop_colour) presburger
  show "pixel_loop m t 0 d ! (4 * k + 1) = d ! (4 * k + 1)"
    by (rule pixel_loop_colour) presburger
  show "pixel_loop m t 0 d ! (4 * k + 2) = d ! (4 * k + 2)"
    by (rule pixel_loop_colour) presburger
  have r: "rd d (4 * k) = Some (d ! (4 * k))"
    and g: "rd d (4 * k + 1) = Some (d ! (4 * k + 1))"
    and b: "rd d (4 * k + 2) = Some (d ! (4 * k + 2))"
    using assms by (simp_all add: rd_def)
  from assms have "0 + 4 * k + 3 < length d" by simp
  note a = pixel_loop_alpha [OF this, of m t]
  from a [unfolded add_0 r g b shouldBeTransparent_in_range]
  show "pixel_loop m t 0 d ! (4 * k + 3) =
           (if m = White \<and> t < real (unat (d ! (4 * k))) \<and> t < real (unat (d ! (4 * k + 1)))
                 \<and> t < real (unat (d ! (4 * k + 2)))
               \<or> m = Black \<and> real (unat (d ! (4 * k))) < t \<and> real (unat (d ! (4 * k + 1))) < t
                 \<and> real (unat (d ! (4 * k + 2))) < t
            then 0 else d ! (4 * k + 3))" .
qed

lemma length_putImageData: "length (putImageData shown d) = length d"
  by (simp add: putImageData_def)

lemma putImageData_nth:
  assumes "j < length d"
  shows "putImageData shown d ! j =
           (if j div 4 * 4 + 3 < length d \<and> d ! (j div 4 * 4 + 3) = 0
                \<and> rd shown (j div 4 * 4 + 3) \<noteq> Some 0
            then 0 else d ! j)"
  using assms by (simp add: putImageData_def)

lemma putImageData_same: "putImageData d d = d"
proof (rule nth_equalityI)
  show "length (putImageData d d) = length d"
    by (rule length_putImageData)
next
  fix j assume "j < length (putImageData d d)"
  then have j: "j < length d" by (simp add: length_putImageData)
  show "putImageData d d ! j = d ! j"
    unfolding putImageData_nth [OF j] by (simp add: rd_def)
qed

lemma quad_index: "i < 4 \<Longrightarrow> (4 * k + i) div 4 * 4 + 3 = 4 * k + 3" for i k :: nat
  by simp

lemma putImageData_pixel:
  assumes "4 * k + 3 < length d" and "length shown = length d" and "i < 4"
  shows "putImageData shown d ! (4 * k + i) =
           (if d ! (4 * k + 3) = 0 \<and> shown ! (4 * k + 3) \<noteq> 0 then 0 else d ! (4 * k + i))"
proof -
  from assms(1,3) have j: "4 * k + i < length d" by simp
  have s: "rd shown (4 * k + 3) = Some (shown ! (4 * k + 3))"
    using assms(1,2) by (simp add: rd_def)
  show ?thesis
    unfolding putImageData_nth [OF j] quad_index [OF assms(3)] s
    using assms(1) by simp
qed

text \<open>The four bytes of a pixel after matting, for a mode other than none.\<close>

lemma matted_pixel:
  assumes "4 * k + 3 < length d"
  shows "putImageData d (pixel_loop m t 0 d) ! (4 * k + 3) =
           (if m = White \<and> t < real (unat (d ! (4 * k))) \<and> t < real (unat (d ! (4 * k + 1)))
                 \<and> t < real (unat (d ! (4 * k + 2)))
               \<or> m = Black \<and> real (unat (d ! (4 * k))) < t \<and> real (unat (d ! (4 * k + 1))) < t
                 \<and> real (unat (d ! (4 * k + 2))) < t
            then 0 else d ! (4 * k + 3))"
    and "putImageData d (pixel_loop m t 0 d) ! (4 * k) =
           (if putImageData d (pixel_loop m t 0 d) ! (4 * k + 3) = 0 \<and> d ! (4 * k + 3) \<noteq> 0
            then 0 else d ! (4 * k))"
    and "putImageData d (pixel_loop m t 0 d) ! (4 * k + 1) =
           (if putImageData d (pixel_loop m t 0 d) ! (4 * k + 3) = 0 \<and> d ! (4 * k + 3) \<noteq> 0
            then 0 else d ! (4 * k + 1))"
    and "putImageData d (pixel_loop m t 0 d) ! (4 * k + 2) =
           (if putImageData d (pixel_loop m t 0 d) ! (4 * k + 3) = 0 \<and> d ! (4 * k + 3) \<noteq> 0
            then 0 else d ! (4 * k + 2))"
proof -
  let ?l = "pixel_loop m t 0 d"
  let ?o = "putImageData d ?l"
  have len: "4 * k + 3 < length ?l" "length d = length ?l"
    using assms by (simp_all add: length_pixel_loop)
  note p = pixel_loop_pixel [OF assms, of m t]
  note w = putImageData_pixel [OF len]
  have alpha: "?o ! (4 * k + 3) = ?l ! (4 * k + 3)"
    unfolding w [of 3, simplified] by simp
  show "?o ! (4 * k + 3) =
           (if m = White \<and> t < real (unat (d ! (4 * k))) \<and> t < real (unat (d ! (4 * k + 1)))
                 \<and> t < real (unat (d ! (4 * k + 2)))
               \<or> m = Black \<and> real (unat (d ! (4 * k))) < t \<and> real (unat (d ! (4 * k + 1))) < t
                 \<and> real (unat (d ! (4 * k + 2))) < t
            then 0 else d ! (4 * k + 3))"
    unfolding alpha p(4) by (rule refl)
  have "?o ! (4 * k + 0) =
           (if ?l ! (4 * k + 3) = 0 \<and> d ! (4 * k + 3) \<noteq> 0 then 0 else ?l ! (4 * k + 0))"
    by (rule w) simp
  then show "?o ! (4 * k) = (if ?o ! (4 * k + 3) = 0 \<and> d ! (4 * k + 3) \<noteq> 0 then 0 else d ! (4 * k))"
    unfolding alpha add_0_right p(1) .
  have "?o ! (4 * k + 1) =
           (if ?l ! (4 * k + 3) = 0 \<and> d ! (4 * k + 3) \<noteq> 0 then 0 else ?l ! (4 * k + 1))"
    by (rule w) simp
  then show "?o ! (4 * k + 1) =
           (if ?o ! (4 * k + 3) = 0 \<and> d ! (4 * k + 3) \<noteq> 0 then 0 else d ! (4 * k + 1))"
    unfolding alpha p(2) .
  have "?o ! (4 * k + 2) =
           (if ?l ! (4 * k + 3) = 0 \<and> d ! (4 * k + 3) \<noteq> 0 then 0 else ?l ! (4 * k + 2))"
    by (rule w) simp
  then show "?o ! (4 * k + 2) =
           (if ?o ! (4 * k + 3) = 0 \<and> d ! (4 * k + 3) \<noteq> 0 then 0 else d ! (4 * k + 2))"
    unfolding alpha p(3) .
qed

text \<open>
  C3. \<open>removeBackground\<close> classifies pixel by pixel. For every raster, mode and threshold
  and every pixel \<open>k\<close> of the raster, the call returns a raster of the same size in which
  the alpha byte of pixel \<open>k\<close> is 0 exactly when the mode is white and all three colour
  bytes are strictly above the threshold, or the mode is black and all three are strictly
  below it, and is the input's otherwise. A pixel whose alpha went from a non-zero value to
  0 comes out as transparent black; every other pixel comes out with the four bytes it
  had. The result at pixel \<open>k\<close> depends on no other pixel: a second raster that agrees with
  the first on the four bytes of pixel \<open>k\<close> gets the same four bytes there.
\<close>

theorem removeBackground_per_pixel:
  assumes "4 * k + 3 < length (data img)"
    and "4 * k + 3 < length (data img')"
    and "data img' ! (4 * k) = data img ! (4 * k)"
    and "data img' ! (4 * k + 1) = data img ! (4 * k + 1)"
    and "data img' ! (4 * k + 2) = data img ! (4 * k + 2)"
    and "data img' ! (4 * k + 3) = data img ! (4 * k + 3)"
  shows "\<exists>out out'.
    removeBackground True img m t = Inr out \<and>
    removeBackground True img' m t = Inr out' \<and>
    width out = width img \<and> height out = height img \<and>
    length (data out) = length (data img) \<and>
    data out ! (4 * k + 3) =
      (if m = White \<and> t < real (unat (data img ! (4 * k)))
            \<and> t < real (unat (data img ! (4 * k + 1)))
            \<and> t < real (unat (data img ! (4 * k + 2)))
          \<or> m = Black \<and> real (unat (data img ! (4 * k))) < t
            \<and> real (unat (data img ! (4 * k + 1))) < t
            \<and> real (unat (data img ! (4 * k + 2))) < t
       then 0 else data img ! (4 * k + 3)) \<and>
    data out ! (4 * k) =
      (if data out ! (4 * k + 3) = 0 \<and> data img ! (4 * k + 3) \<noteq> 0 then 0
       else data img ! (4 * k)) \<and>
    data out ! (4 * k + 1) =
      (if data out ! (4 * k + 3) = 0 \<and> data img ! (4 * k + 3) \<noteq> 0 then 0
       else data img ! (4 * k + 1)) \<and>
    data out ! (4 * k + 2) =
      (if data out ! (4 * k + 3) = 0 \<and> data img ! (4 * k + 3) \<noteq> 0 then 0
       else data img ! (4 * k + 2)) \<and>
    data out' ! (4 * k) = data out ! (4 * k) \<and>
    data out' ! (4 * k + 1) = data out ! (4 * k + 1) \<and>
    data out' ! (4 * k + 2) = data out ! (4 * k + 2) \<and>
    data out' ! (4 * k + 3) = data out ! (4 * k + 3)"
proof (cases "m = NoRemoval")
  case True
  then show ?thesis
    using assms by (simp add: removeBackground_def)
next
  case False
  let ?d = "data img" and ?d' = "data img'"
  define out where "out = img\<lparr>data := putImageData ?d (pixel_loop m t 0 ?d)\<rparr>"
  define out' where "out' = img'\<lparr>data := putImageData ?d' (pixel_loop m t 0 ?d')\<rparr>"
  have r: "removeBackground True img m t = Inr out"
    and r': "removeBackground True img' m t = Inr out'"
    using False by (simp_all add: removeBackground_def out_def out'_def)
  have d: "data out = putImageData ?d (pixel_loop m t 0 ?d)"
    and d': "data out' = putImageData ?d' (pixel_loop m t 0 ?d')"
    and wh: "width out = width img" "height out = height img"
    by (simp_all add: out_def out'_def)
  have len: "length (data out) = length (data img)"
    unfolding d by (simp add: length_putImageData length_pixel_loop)
  note p = matted_pixel [OF assms(1), of m t, folded d]
  note p' = matted_pixel [OF assms(2), of m t, folded d']
  have a': "data out' ! (4 * k + 3) = data out ! (4 * k + 3)"
    unfolding p(1) p'(1) assms(3-6) by (rule refl)
  have same: "data out' ! (4 * k) = data out ! (4 * k)"
    "data out' ! (4 * k + 1) = data out ! (4 * k + 1)"
    "data out' ! (4 * k + 2) = data out ! (4 * k + 2)"
    by (subst p'(2), subst p(2), simp only: a' assms(3-6))
       (subst p'(3), subst p(3), simp only: a' assms(3-6),
        subst p'(4), subst p(4), simp only: a' assms(3-6))
  from r r' wh len p same a' show ?thesis by blast
qed

theorem removeBackground_per_pixel_witness:
  "\<exists>out out'.
     removeBackground True \<lparr>width = 2, height = 1, data = [250, 251, 252, 255, 10, 20, 30, 255]\<rparr>
       White 240 = Inr out \<and>
     removeBackground True \<lparr>width = 2, height = 1, data = [250, 251, 252, 255, 0, 0, 0, 7]\<rparr>
       White 240 = Inr out' \<and>
     data out ! 3 = 0 \<and> data out' ! 3 = 0 \<and> data out ! 0 = 0"
  using removeBackground_per_pixel
    [of 0 "\<lparr>width = 2, height = 1, data = [250, 251, 252, 255, 10, 20, 30, 255]\<rparr>"
        "\<lparr>width = 2, height = 1, data = [250, 251, 252, 255, 0, 0, 0, 7]\<rparr>" White 240]
  by auto

lemma channel_bounds: "0 \<le> real (unat (v :: 8 word))" "real (unat (v :: 8 word)) \<le> 255"
proof -
  show "0 \<le> real (unat v)"
    by (rule of_nat_0_le_iff)
  have "unat v < 2 ^ LENGTH(8)"
    by (rule unsigned_less)
  then have "unat v \<le> 255" by simp
  then have "real (unat v) \<le> real 255"
    by (rule iffD2 [OF of_nat_le_iff])
  then show "real (unat v) \<le> 255" by (simp del: of_nat_unat)
qed

lemma never_transparent_white:
  assumes "255 \<le> t"
  shows "\<not> shouldBeTransparent White t r g b"
proof (cases r)
  case None
  then show ?thesis by (simp add: shouldBeTransparent_def)
next
  case (Some v)
  from channel_bounds(2) [of v] assms have "\<not> t < real (unat v)" by linarith
  then show ?thesis
    unfolding Some shouldBeTransparent_def gt.simps by simp
qed

lemma never_transparent_black:
  assumes "t \<le> 0"
  shows "\<not> shouldBeTransparent Black t r g b"
proof (cases r)
  case None
  then show ?thesis by (simp add: shouldBeTransparent_def)
next
  case (Some v)
  from channel_bounds(1) [of v] assms have "\<not> real (unat v) < t" by linarith
  then show ?thesis
    unfolding Some shouldBeTransparent_def lt.simps by simp
qed

lemma pixel_loop_idle:
  "(\<And>r g b. \<not> shouldBeTransparent m t r g b) \<Longrightarrow> pixel_loop m t i d = d"
proof (induction m t i d rule: pixel_loop.induct)
  case (1 m t i d)
  show ?case
  proof (cases "i < length d")
    case True
    have "pixel_loop m t i d = pixel_loop m t (i + 4) d"
      using True "1.prems" by (subst pixel_loop.simps) simp
    also have "\<dots> = d"
      using "1.IH" [OF True] "1.prems" by simp
    finally show ?thesis .
  next
    case False
    then show ?thesis
      by (subst pixel_loop.simps) simp
  qed
qed

text \<open>
  C10. Both comparisons are strict and a channel byte lies in 0..255, so with mode white
  and a threshold of 255 or more, and with mode black and a threshold of 0 or less,
  \<open>removeBackground\<close> returns the input raster itself: no pixel is made transparent.
\<close>

theorem removeBackground_extreme_threshold:
  assumes "m = White \<and> 255 \<le> t \<or> m = Black \<and> t \<le> 0"
  shows "removeBackground True img m t = Inr img"
proof -
  have "pixel_loop m t 0 (data img) = data img"
    using assms never_transparent_white never_transparent_black
    by (intro pixel_loop_idle) blast
  then show ?thesis
    by (simp add: removeBackground_def putImageData_same)
qed

theorem removeBackground_extreme_threshold_witness:
  "removeBackground True \<lparr>width = 1, height = 1, data = [255, 255, 255, 255]\<rparr> White 255 =
     Inr \<lparr>width = 1, height = 1, data = [255, 255, 255, 255]\<rparr> \<and>
   removeBackground True \<lparr>width = 1, height = 1, data = [0, 0, 0, 255]\<rparr> Black 0 =
     Inr \<lparr>width = 1, height = 1, data = [0, 0, 0, 255]\<rparr>"
  using removeBackground_extreme_threshold
      [of White 255 "\<lparr>width = 1, height = 1, data = [255, 255, 255, 255]\<rparr>"]
    removeBackground_extreme_threshold
      [of Black 0 "\<lparr>width = 1, height = 1, data = [0, 0, 0, 255]\<rparr>"]
  by simp

text \<open>
  C4, as stated, fails: with mode none the output is the input, so a pixel that is
  transparent in the input is transparent in the output, not opaque.
\<close>

theorem removeBackground_none_not_opaque:
  "(case removeBackground True \<lparr>width = 1, height = 1, data = [0, 0, 0, 0]\<rparr> NoRemoval 128 of
      Inl e \<Rightarrow> False
    | Inr out \<Rightarrow> data out ! 3 \<noteq> 255)"
  by (simp add: removeBackground_def)

text \<open>
  C4, amended. For every raster and every threshold, \<open>removeBackground\<close> with mode none
  returns the input raster itself, byte for byte; the alpha of each output pixel is the
  alpha of the input pixel (opaque where, and only where, the input is opaque).
\<close>

theorem removeBackground_none_identity:
  "removeBackground True img NoRemoval t = Inr img"
  by (simp add: removeBackground_def)

section \<open>Properties of the geometric transform engine\<close>

text \<open>
  The binade brackets the number, and rounding to the nearest double moves a number by at
  most half a unit in the last place, that is by a relative \<open>2\<^sup>-\<^sup>5\<^sup>3\<close>.
\<close>

lemma pow2_succ: "(2::real) powi (e + 1) = 2 powi e * 2"
  by (simp add: power_int_add)

lemma pow2_pred: "(2::real) powi (e - 1) = 2 powi e / 2"
  by (simp add: power_int_diff)

lemma halvings_bounds: "1 \<le> x \<Longrightarrow> 2 powi halvings x \<le> x \<and> x < 2 powi (halvings x + 1)"
proof (induction x rule: halvings.induct)
  case (1 x)
  show ?case
  proof (cases "x < 2")
    case True
    then have "halvings x = 0" by (subst halvings.simps) simp
    with True "1.prems" show ?thesis by simp
  next
    case False
    then have u: "halvings x = halvings (x / 2) + 1" by (subst halvings.simps) simp
    from False have "1 \<le> x / 2" by simp
    from "1.IH" [OF False this]
    have "2 powi halvings (x / 2) \<le> x / 2" "x / 2 < 2 powi (halvings (x / 2) + 1)" by simp_all
    then have "2 powi halvings (x / 2) * 2 \<le> x" "x < 2 powi (halvings (x / 2) + 1) * 2"
      by linarith+
    then show ?thesis
      unfolding u pow2_succ [of "halvings (x / 2) + 1"] unfolding pow2_succ [of "halvings (x / 2)"]
      by simp
  qed
qed

lemma doublings_bounds: "0 < x \<Longrightarrow> x < 1 \<Longrightarrow> 2 powi doublings x \<le> x \<and> x < 2 powi (doublings x + 1)"
proof (induction x rule: doublings.induct)
  case (1 x)
  have nb: "\<not> (x \<le> 0 \<or> 1 \<le> x)" using "1.prems" by simp
  have unfold: "doublings x = doublings (x * 2) - 1"
    using nb by (subst doublings.simps) simp
  have succ: "doublings (x * 2) - 1 + 1 = doublings (x * 2)" by simp
  show ?case
  proof (cases "x * 2 < 1")
    case True
    from "1.prems" have "0 < x * 2" by simp
    from "1.IH" [OF nb this True]
    have "2 powi doublings (x * 2) \<le> x * 2" "x * 2 < 2 powi (doublings (x * 2) + 1)" by simp_all
    then have "2 powi doublings (x * 2) / 2 \<le> x" "x < 2 powi doublings (x * 2)"
      unfolding pow2_succ by linarith+
    then show ?thesis
      unfolding unfold succ pow2_pred by simp
  next
    case False
    then have "doublings (x * 2) = 0" by (subst doublings.simps) simp
    with False "1.prems" show ?thesis
      unfolding unfold succ pow2_pred by simp
  qed
qed

lemma binade_bounds:
  assumes "x \<noteq> 0"
  shows "2 powi binade x \<le> \<bar>x\<bar>" and "\<bar>x\<bar> < 2 powi (binade x + 1)"
proof -
  have "2 powi binade x \<le> \<bar>x\<bar> \<and> \<bar>x\<bar> < 2 powi (binade x + 1)"
  proof (cases "1 \<le> \<bar>x\<bar>")
    case True
    with halvings_bounds [of "\<bar>x\<bar>"] show ?thesis by (simp add: binade_def)
  next
    case False
    with assms doublings_bounds [of "\<bar>x\<bar>"] show ?thesis by (simp add: binade_def)
  qed
  then show "2 powi binade x \<le> \<bar>x\<bar>" and "\<bar>x\<bar> < 2 powi (binade x + 1)" by simp_all
qed



lemma ulp_pos: "0 < ulp x"
  by (simp add: ulp_def)

lemma round_even_range: "\<lfloor>y\<rfloor> \<le> round_even y" "round_even y \<le> \<lfloor>y\<rfloor> + 1"
  by (simp_all add: round_even_def Let_def)

lemma round_even_error: "\<bar>of_int (round_even y) - y\<bar> \<le> 1 / 2"
proof -
  have f: "of_int \<lfloor>y\<rfloor> \<le> y" "y < of_int \<lfloor>y\<rfloor> + 1" by linarith+
  consider "y - of_int \<lfloor>y\<rfloor> < 1 / 2" | "1 / 2 < y - of_int \<lfloor>y\<rfloor>" | "y - of_int \<lfloor>y\<rfloor> = 1 / 2"
    by linarith
  then show ?thesis
  proof cases
    case 1
    then have "round_even y = \<lfloor>y\<rfloor>" by (simp add: round_even_def Let_def)
    with 1 f show ?thesis by simp
  next
    case 2
    then have "round_even y = \<lfloor>y\<rfloor> + 1" by (simp add: round_even_def Let_def)
    with 2 f show ?thesis by simp
  next
    case 3
    then have "round_even y = \<lfloor>y\<rfloor> \<or> round_even y = \<lfloor>y\<rfloor> + 1"
      by (simp add: round_even_def Let_def)
    then show ?thesis
    proof
      assume "round_even y = \<lfloor>y\<rfloor>"
      with 3 show ?thesis by simp
    next
      assume "round_even y = \<lfloor>y\<rfloor> + 1"
      with 3 show ?thesis by simp
    qed
  qed
qed

lemma round_even_of_int: "round_even (of_int k) = k"
  by (simp add: round_even_def Let_def)

lemma fl_error: "\<bar>fl x - x\<bar> \<le> \<bar>x\<bar> / 2 ^ 53"
proof (cases "x = 0")
  case True
  then show ?thesis by (simp add: fl_def)
next
  case False
  let ?q = "ulp x"
  have q: "0 < ?q" by (rule ulp_pos)
  have "fl x - x = (of_int (round_even (x / ?q)) - x / ?q) * ?q"
    using False q by (simp add: fl_def algebra_simps)
  then have "\<bar>fl x - x\<bar> = \<bar>of_int (round_even (x / ?q)) - x / ?q\<bar> * ?q"
    using q by (simp add: abs_mult)
  also have "\<dots> \<le> 1 / 2 * ?q"
    using round_even_error [of "x / ?q"] q by (intro mult_right_mono) simp_all
  also have "1 / 2 * ?q = 2 powi binade x / 2 ^ 53"
    by (simp add: ulp_def power_int_diff)
  also have "\<dots> \<le> \<bar>x\<bar> / 2 ^ 53"
    using binade_bounds(1) [OF False] by (intro divide_right_mono) simp_all
  finally show ?thesis .
qed

lemma fl_upper: "fl x \<le> x + \<bar>x\<bar> / 2 ^ 53"
  using fl_error [of x] by linarith

lemma fl_lower: "x - \<bar>x\<bar> / 2 ^ 53 \<le> fl x"
  using fl_error [of x] by linarith

lemma small_le: "\<bar>x\<bar> / 2 ^ 53 \<le> \<bar>x :: real\<bar>"
proof -
  have "\<bar>x\<bar> / 2 ^ 53 \<le> \<bar>x\<bar> / 1"
    by (intro divide_left_mono) simp_all
  then show ?thesis by simp
qed

lemma fl_nonneg: "0 \<le> x \<Longrightarrow> 0 \<le> fl x"
  using fl_lower [of x] small_le [of x] by linarith

lemma fl_nonpos: "x \<le> 0 \<Longrightarrow> fl x \<le> 0"
  using fl_upper [of x] small_le [of x] by linarith

lemma fl_ge_binade:
  assumes "0 < x"
  shows "2 powi binade x \<le> fl x"
proof -
  from assms have nz: "x \<noteq> 0" by simp
  let ?q = "ulp x"
  have q: "0 < ?q" by (rule ulp_pos)
  have "2 powi binade x = 2 ^ 52 * ?q"
    by (simp add: ulp_def power_int_diff)
  moreover have "2 powi binade x \<le> x"
    using binade_bounds(1) [OF nz] assms by simp
  ultimately have "2 ^ 52 \<le> x / ?q"
    using q by (simp add: pos_le_divide_eq)
  then have "(2 ^ 52 :: int) \<le> \<lfloor>x / ?q\<rfloor>"
    by (simp add: le_floor_iff)
  with round_even_range(1) [of "x / ?q"]
  have "(2 ^ 52 :: int) \<le> round_even (x / ?q)" by linarith
  then have "(of_int (2 ^ 52) :: real) \<le> of_int (round_even (x / ?q))"
    by (simp only: of_int_le_iff)
  then have "2 ^ 52 \<le> (of_int (round_even (x / ?q)) :: real)" by simp
  then have "2 ^ 52 * ?q \<le> of_int (round_even (x / ?q)) * ?q"
    using q by (intro mult_right_mono) simp_all
  with \<open>2 powi binade x = 2 ^ 52 * ?q\<close> nz show ?thesis
    by (simp add: fl_def)
qed

lemma fl_ge_one:
  assumes "1 \<le> x"
  shows "1 \<le> fl x"
proof -
  from assms have pos: "0 < x" and nz: "x \<noteq> 0" by simp_all
  have "0 \<le> binade x"
  proof (rule ccontr)
    assume "\<not> 0 \<le> binade x"
    then have "binade x + 1 \<le> 0" by simp
    then have "(2::real) powi (binade x + 1) \<le> 2 powi 0"
      by (rule power_int_increasing) simp
    with binade_bounds(2) [OF nz] assms show False by simp
  qed
  then have "(2::real) powi 0 \<le> 2 powi binade x"
    by (rule power_int_increasing) simp
  with fl_ge_binade [OF pos] show ?thesis by simp
qed

lemma fl_zero: "fl 0 = 0"
  by (simp add: fl_def)

text \<open>Numbers with at most 53 significant bits are doubles.\<close>

lemma fl_exact:
  assumes "\<bar>n\<bar> < 2 ^ 53"
  shows "fl (of_int n * 2 powi k) = of_int n * 2 powi k"
proof (cases "n = 0")
  case True
  then show ?thesis by (simp add: fl_def)
next
  case False
  let ?x = "of_int n * 2 powi k :: real"
  have nz: "?x \<noteq> 0" using False by simp
  let ?e = "binade ?x"
  have "\<bar>?x\<bar> = of_int \<bar>n\<bar> * 2 powi k" by (simp add: abs_mult)
  moreover have "(of_int \<bar>n\<bar> :: real) < of_int (2 ^ 53)"
    using assms by (simp only: of_int_less_iff)
  ultimately have "\<bar>?x\<bar> < 2 ^ 53 * 2 powi k"
    by simp
  also have "2 ^ 53 * 2 powi k = (2::real) powi (53 + k)"
    by (simp add: power_int_add)
  finally have "2 powi ?e < (2::real) powi (53 + k)"
    using binade_bounds(1) [OF nz] by linarith
  have "?e < 53 + k"
  proof (rule ccontr)
    assume "\<not> ?e < 53 + k"
    then have "53 + k \<le> ?e" by simp
    then have "(2::real) powi (53 + k) \<le> 2 powi ?e"
      by (rule power_int_increasing) simp
    with \<open>2 powi ?e < (2::real) powi (53 + k)\<close> show False by simp
  qed
  then have d: "0 \<le> 52 + k - ?e" by simp
  have "?x / ulp ?x = of_int n * (2 powi k / 2 powi (?e - 52))"
    by (simp add: ulp_def)
  also have "2 powi k / 2 powi (?e - 52) = (2::real) powi (52 + k - ?e)"
    by (simp add: power_int_diff power_int_add field_simps)
  also have "\<dots> = 2 ^ nat (52 + k - ?e)"
    using d by (rule power_int_nonneg_exp)
  also have "of_int n * 2 ^ nat (52 + k - ?e) = (of_int (n * 2 ^ nat (52 + k - ?e)) :: real)"
    by simp
  finally have "round_even (?x / ulp ?x) = n * 2 ^ nat (52 + k - ?e)"
    by (simp only: round_even_of_int)
  then have "fl ?x = of_int (n * 2 ^ nat (52 + k - ?e)) * ulp ?x"
    using nz by (simp only: fl_def if_False)
  also have "\<dots> = of_int n * (2 powi (52 + k - ?e) * 2 powi (?e - 52))"
    using d by (simp add: ulp_def power_int_nonneg_exp)
  also have "2 powi (52 + k - ?e) * 2 powi (?e - 52) = (2::real) powi k"
    by (simp flip: power_int_add)
  finally show ?thesis .
qed










lemma resizeToLineSpec_canvas:
  "\<exists>r. resizeToLineSpec True (Some img) w h p = Inr r \<and>
        canvas_width r = w \<and> canvas_height r = h \<and> source r = img"
  by (simp add: resizeToLineSpec_def Let_def)






lemma col_loop_eq:
  "col_loop ctx cw ch cols r c blobs =
     blobs @ map (\<lambda>c. toBlob (cut_cell cw ch r c)) (filter (ctx r) [c..<cols])"
proof (induction ctx cw ch cols r c blobs rule: col_loop.induct)
  case (1 ctx cw ch cols r c blobs)
  show ?case
  proof (cases "c < cols")
    case True
    then have split: "[c..<cols] = c # [c + 1..<cols]"
      by (simp add: upt_conv_Cons)
    show ?thesis
    proof (cases "ctx r c")
      case True
      with \<open>c < cols\<close> "1.IH"(2) show ?thesis
        by (subst col_loop.simps) (simp add: split)
    next
      case False
      with \<open>c < cols\<close> "1.IH"(1) show ?thesis
        by (subst col_loop.simps) (simp add: split)
    qed
  next
    case False
    then show ?thesis
      by (subst col_loop.simps) simp
  qed
qed

lemma row_loop_eq:
  "row_loop ctx cw ch rows cols r blobs =
     blobs @ concat (map (\<lambda>r. map (\<lambda>c. toBlob (cut_cell cw ch r c)) (filter (ctx r) [0..<cols])) [r..<rows])"
proof (induction ctx cw ch rows cols r blobs rule: row_loop.induct)
  case (1 ctx cw ch rows cols r blobs)
  show ?case
  proof (cases "r < rows")
    case True
    then have split: "[r..<rows] = r # [r + 1..<rows]"
      by (simp add: upt_conv_Cons)
    from True "1.IH" show ?thesis
      by (subst row_loop.simps) (simp add: split col_loop_eq)
  next
    case False
    then show ?thesis
      by (subst row_loop.simps) simp
  qed
qed

lemma concat_rows_length:
  "(\<And>i. i < n \<Longrightarrow> length (f i) = m) \<Longrightarrow> length (concat (map f [0..<n])) = n * m"
  by (induction n) simp_all

lemma concat_rows_nth:
  assumes "\<And>i. i < n \<Longrightarrow> length (f i) = m" and "r < n" and "c < m"
  shows "concat (map f [0..<n]) ! (r * m + c) = f r ! c"
  using assms
proof (induction n)
  case 0
  then show ?case by simp
next
  case (Suc n)
  have len: "length (concat (map f [0..<n])) = n * m"
    using Suc.prems(1) by (intro concat_rows_length) simp
  show ?case
  proof (cases "r < n")
    case True
    then have "Suc r \<le> n" by simp
    then have "Suc r * m \<le> n * m" by (rule mult_le_mono1)
    with Suc.prems(3) have "r * m + c < n * m" by simp
    with Suc.IH [OF _ True Suc.prems(3)] Suc.prems(1) len show ?thesis
      by (simp add: nth_append)
  next
    case False
    with Suc.prems(2) have "r = n" by simp
    with len show ?thesis
      by (simp add: nth_append)
  qed
qed

lemma cropImageGrid_all:
  "cropImageGrid (\<lambda>r c. True) img rows cols =
     concat (map (\<lambda>r. map (\<lambda>c. toBlob (cut_cell (fl (real (width img) / real cols))
                                          (fl (real (height img) / real rows)) r c))
        [0..<cols]) [0..<rows])"
  by (simp add: cropImageGrid_def row_loop_eq)

lemma cropImageGrid_length:
  "length (cropImageGrid (\<lambda>r c. True) img rows cols) = rows * cols"
  unfolding cropImageGrid_all by (rule concat_rows_length) simp

lemma cropImageGrid_nth:
  assumes "r < rows" and "c < cols"
  shows "cropImageGrid (\<lambda>r c. True) img rows cols ! (r * cols + c) =
     toBlob (cut_cell (fl (real (width img) / real cols)) (fl (real (height img) / real rows)) r c)"
proof -
  let ?f = "\<lambda>r. map (\<lambda>c. toBlob (cut_cell (fl (real (width img) / real cols))
                                     (fl (real (height img) / real rows)) r c)) [0..<cols]"
  have "concat (map ?f [0..<rows]) ! (r * cols + c) = ?f r ! c"
    using assms by (intro concat_rows_nth) simp_all
  with assms show ?thesis
    unfolding cropImageGrid_all by simp
qed


text \<open>
  C7, as stated, fails: an image with fewer pixel columns than grid columns, or fewer
  pixel rows than grid rows, gives canvases without pixels, for which \<open>toBlob\<close> yields
  \<open>null\<close>. A 1 by 1 image cut 2 by 2 returns four times \<open>null\<close> and no image.
\<close>

theorem cropImageGrid_tiny_image:
  "cropImageGrid (\<lambda>r c. True) \<lparr>width = 1, height = 1, data = [0, 0, 0, 255]\<rparr> 2 2 =
     [None, None, None, None]"
proof -
  have half: "fl (1 / 2) = 1 / 2"
    using fl_exact [of 1 "- 1"] by simp
  have "[0..<2] = [0, Suc 0]"
    by (simp add: numeral_2_eq_2)
  then show ?thesis
    by (simp add: cropImageGrid_all half toBlob_def cut_cell_def)
qed

lemma two_roundings:
  fixes P Q S :: real
  assumes "0 \<le> Q" and "\<bar>P - Q\<bar> \<le> Q / 2 ^ 53" and "\<bar>S - P\<bar> \<le> \<bar>P\<bar> / 2 ^ 53"
  shows "\<bar>S - Q\<bar> \<le> Q / 2 ^ 51"
  using assms by (simp add: abs_if split: if_splits)

lemma fl_grid_error:
  fixes E :: real
  assumes "0 \<le> E"
  shows "\<bar>fl E - E\<bar> \<le> E / 2 ^ 53"
    and "\<bar>fl (real c * fl E) - real c * E\<bar> \<le> real c * E / 2 ^ 51"
proof -
  show e: "\<bar>fl E - E\<bar> \<le> E / 2 ^ 53"
    using fl_error [of E] assms by simp
  let ?P = "real c * fl E" and ?Q = "real c * E"
  have q: "0 \<le> ?Q" using assms by simp
  have "\<bar>?P - ?Q\<bar> = real c * \<bar>fl E - E\<bar>"
    by (simp add: abs_mult flip: right_diff_distrib)
  also have "\<dots> \<le> real c * (E / 2 ^ 53)"
    using e by (intro mult_left_mono) simp_all
  finally have pq: "\<bar>?P - ?Q\<bar> \<le> ?Q / 2 ^ 53" by simp
  have "\<bar>fl ?P - ?P\<bar> \<le> \<bar>?P\<bar> / 2 ^ 53" by (rule fl_error)
  with q pq show "\<bar>fl ?P - ?Q\<bar> \<le> ?Q / 2 ^ 51"
    by (rule two_roundings)
qed

text \<open>
  C7, amended. For every raster and all \<open>rows \<ge> 1\<close>, \<open>cols \<ge> 1\<close> with at least \<open>cols\<close>
  pixel columns and \<open>rows\<close> pixel rows in the raster, when every cell obtains its 2D
  context, \<open>cropImageGrid\<close> returns exactly \<open>rows * cols\<close> images in row-major order: the
  entry at index \<open>r * cols + c\<close> is an image at least one pixel wide and high, on a canvas
  of the cell size with the fraction dropped, cut from the source rectangle whose width
  and height are the doubles nearest to \<open>width / cols\<close> and \<open>height / rows\<close> and whose left
  and top edges are \<open>c\<close> and \<open>r\<close> times these, computed in doubles. These rectangles tile the
  source image up to rounding: the exact grid of cells \<open>width / cols\<close> by \<open>height / rows\<close>
  tiles it, and each rectangle has its size within a relative \<open>2\<^sup>-\<^sup>5\<^sup>3\<close> and its left and
  top edge within a relative \<open>2\<^sup>-\<^sup>5\<^sup>1\<close> of those of its cell of the exact grid.
\<close>

theorem cropImageGrid_row_major:
  assumes "1 \<le> rows" and "1 \<le> cols" and "cols \<le> width img" and "rows \<le> height img"
  shows "length (cropImageGrid (\<lambda>r c. True) img rows cols) = rows * cols \<and>
    (\<forall>r<rows. \<forall>c<cols. \<exists>k.
       cropImageGrid (\<lambda>r c. True) img rows cols ! (r * cols + c) = Some k \<and>
       cell_canvas_width k = nat \<lfloor>fl (real (width img) / real cols)\<rfloor> \<and>
       cell_canvas_height k = nat \<lfloor>fl (real (height img) / real rows)\<rfloor> \<and>
       1 \<le> cell_canvas_width k \<and> 1 \<le> cell_canvas_height k \<and>
       sWidth k = fl (real (width img) / real cols) \<and>
       sHeight k = fl (real (height img) / real rows) \<and>
       sx k = fl (real c * fl (real (width img) / real cols)) \<and>
       sy k = fl (real r * fl (real (height img) / real rows)) \<and>
       \<bar>sWidth k - real (width img) / real cols\<bar> \<le> real (width img) / real cols / 2 ^ 53 \<and>
       \<bar>sHeight k - real (height img) / real rows\<bar> \<le> real (height img) / real rows / 2 ^ 53 \<and>
       \<bar>sx k - real c * (real (width img) / real cols)\<bar>
          \<le> real c * (real (width img) / real cols) / 2 ^ 51 \<and>
       \<bar>sy k - real r * (real (height img) / real rows)\<bar>
          \<le> real r * (real (height img) / real rows) / 2 ^ 51)"
proof (intro conjI allI impI)
  let ?E = "real (width img) / real cols" and ?F = "real (height img) / real rows"
  let ?g = "cropImageGrid (\<lambda>r c. True) img rows cols"
  show "length ?g = rows * cols"
    by (rule cropImageGrid_length)
  fix r c assume r: "r < rows" and c: "c < cols"
  let ?k = "cut_cell (fl ?E) (fl ?F) r c"
  have "1 \<le> ?E" using assms(2,3) by (simp add: pos_le_divide_eq)
  then have e1: "1 \<le> fl ?E" by (rule fl_ge_one)
  then have cw: "1 \<le> nat \<lfloor>fl ?E\<rfloor>" by linarith
  have "1 \<le> ?F" using assms(1,4) by (simp add: pos_le_divide_eq)
  then have "1 \<le> fl ?F" by (rule fl_ge_one)
  then have ch: "1 \<le> nat \<lfloor>fl ?F\<rfloor>" by linarith
  have fld: "cell_canvas_width ?k = nat \<lfloor>fl ?E\<rfloor>" "cell_canvas_height ?k = nat \<lfloor>fl ?F\<rfloor>"
    by (simp_all add: cut_cell_def)
  have "cell_canvas_width ?k \<noteq> 0" "cell_canvas_height ?k \<noteq> 0"
    unfolding fld using cw ch by linarith+
  then have blob: "toBlob ?k = Some ?k"
    by (simp add: toBlob_def)
  have at: "?g ! (r * cols + c) = Some ?k"
    using cropImageGrid_nth [OF r c, of img] blob by (simp only:)
  have E0: "0 \<le> ?E" and F0: "0 \<le> ?F" by simp_all
  note ex = fl_grid_error(1) [OF E0] fl_grid_error(2) [OF E0, of c]
    and ey = fl_grid_error(1) [OF F0] fl_grid_error(2) [OF F0, of r]
  have "cell_canvas_width ?k = nat \<lfloor>fl ?E\<rfloor>" "cell_canvas_height ?k = nat \<lfloor>fl ?F\<rfloor>"
    "sWidth ?k = fl ?E" "sHeight ?k = fl ?F"
    "sx ?k = fl (real c * fl ?E)" "sy ?k = fl (real r * fl ?F)"
    by (simp_all add: cut_cell_def)
  with at cw ch ex ey
  show "\<exists>k. ?g ! (r * cols + c) = Some k \<and>
       cell_canvas_width k = nat \<lfloor>fl ?E\<rfloor> \<and> cell_canvas_height k = nat \<lfloor>fl ?F\<rfloor> \<and>
       1 \<le> cell_canvas_width k \<and> 1 \<le> cell_canvas_height k \<and>
       sWidth k = fl ?E \<and> sHeight k = fl ?F \<and>
       sx k = fl (real c * fl ?E) \<and> sy k = fl (real r * fl ?F) \<and>
       \<bar>sWidth k - ?E\<bar> \<le> ?E / 2 ^ 53 \<and> \<bar>sHeight k - ?F\<bar> \<le> ?F / 2 ^ 53 \<and>
       \<bar>sx k - real c * ?E\<bar> \<le> real c * ?E / 2 ^ 51 \<and>
       \<bar>sy k - real r * ?F\<bar> \<le> real r * ?F / 2 ^ 51"
    by (intro exI [of _ ?k]) (simp only: simp_thms)
qed

theorem cropImageGrid_row_major_witness:
  "length (cropImageGrid (\<lambda>r c. True) \<lparr>width = 400, height = 200, data = []\<rparr> 2 4) = 8 \<and>
   (\<exists>k. cropImageGrid (\<lambda>r c. True) \<lparr>width = 400, height = 200, data = []\<rparr> 2 4 ! 6 = Some k \<and>
        1 \<le> cell_canvas_width k \<and> \<bar>sx k - 200\<bar> \<le> 200 / 2 ^ 51 \<and> \<bar>sy k - 100\<bar> \<le> 100 / 2 ^ 51)"
proof -
  have h: "(1::nat) \<le> 2" "(1::nat) \<le> 4" "4 \<le> width \<lparr>width = 400, height = 200, data = []\<rparr>"
    "2 \<le> height \<lparr>width = 400, height = 200, data = []\<rparr>" by simp_all
  note t = cropImageGrid_row_major [OF h]
  have "(1::nat) < 2" "(2::nat) < 4" by simp_all
  from t [THEN conjunct1] t [THEN conjunct2, rule_format, OF this]
  show ?thesis by auto
qed

section \<open>Properties of the undo history\<close>

lemmas editor_defs = initial_def applyAuto_def pushHistory_def slice0_def handleUp_def draw_def
  handleUndo_def

text \<open>
  C2. The history is meant to hold at most 15 snapshots, the oldest being evicted. In the
  code it does not: a session that commits its automatic matting (snapshot 1) and then 15
  brush edits (snapshots 2 to 16) holds 16 snapshots while the index stays at 14, so that
  undo repaints snapshot 14 and not snapshot 15; a further edit replaces snapshot 16 by
  snapshot 17 and still keeps snapshot 1, the oldest.
\<close>

theorem pushHistory_retains_sixteen:
  "history (edits [2, 3, 4, 5, 6, 7, 8, 9, 10, 11, 12, 13, 14, 15, 16] (applyAuto 1 (initial (0::nat))))
     = [1, 2, 3, 4, 5, 6, 7, 8, 9, 10, 11, 12, 13, 14, 15, 16] \<and>
   historyIdx (edits [2, 3, 4, 5, 6, 7, 8, 9, 10, 11, 12, 13, 14, 15, 16] (applyAuto 1 (initial (0::nat))))
     = 14 \<and>
   canvas (handleUndo True
     (edits [2, 3, 4, 5, 6, 7, 8, 9, 10, 11, 12, 13, 14, 15, 16] (applyAuto 1 (initial (0::nat)))))
     = 14 \<and>
   history (edits [2, 3, 4, 5, 6, 7, 8, 9, 10, 11, 12, 13, 14, 15, 16, 17] (applyAuto 1 (initial (0::nat))))
     = [1, 2, 3, 4, 5, 6, 7, 8, 9, 10, 11, 12, 13, 14, 15, 17]"
  by (simp add: editor_defs Let_def)

text \<open>
  What does hold of the history: undo never takes the index below 0 and does nothing at
  index 0; the index never exceeds 14 and the list never exceeds 16 snapshots. The
  eviction branch of \<open>pushHistory\<close> is never taken, because the slice it tests is at most
  15 long.
\<close>

lemma handleUndo_floor:
  "0 \<le> historyIdx st \<Longrightarrow> 0 \<le> historyIdx (handleUndo ready st)"
  by (simp add: handleUndo_def Let_def)

lemma handleUndo_at_start: "historyIdx st \<le> 0 \<Longrightarrow> handleUndo ready st = st"
  by (simp add: handleUndo_def)

lemma pushHistory_never_evicts:
  assumes "- 1 \<le> historyIdx st" and "historyIdx st \<le> 14"
  shows "history (pushHistory True st) = take (nat (historyIdx st + 1)) (history st) @ [canvas st]"
proof -
  from assms have "nat (historyIdx st + 1) \<le> 15" by simp
  then have "\<not> 15 < length (take (nat (historyIdx st + 1)) (history st))" by simp
  with assms show ?thesis
    by (simp add: pushHistory_def slice0_def Let_def del: length_take)
qed

lemma pushHistory_bounds:
  assumes "- 1 \<le> historyIdx st" and "historyIdx st \<le> 14"
    and "historyIdx st < int (length (history st))"
  shows "0 \<le> historyIdx (pushHistory True st)"
    and "historyIdx (pushHistory True st) \<le> 14"
    and "length (history (pushHistory True st)) \<le> 16"
    and "historyIdx (pushHistory True st) < int (length (history (pushHistory True st)))"
  using assms by (auto simp add: pushHistory_def slice0_def Let_def min_def)

section \<open>Properties of the collection and of export\<close>

lemma doneStickers_none:
  assumes "\<forall>s \<in> set ss. status s \<noteq> Done"
  shows "doneStickers ss = []"
  using assms by (simp add: doneStickers_def filter_empty_conv)

text \<open>
  C8. When no item of the collection has status done, \<open>handleExport\<close> shows the
  process-first notice, hands no archive to \<open>saveAs\<close>, and leaves the collection, the
  progress value and the exporting flag as they were.
\<close>

theorem handleExport_nothing_done:
  assumes "\<forall>s \<in> set (stickers st). status s \<noteq> Done"
  shows "handleExport ctx st = \<lparr>alert = Some ProcessFirst, saved = None, after = st\<rparr>"
  using doneStickers_none [OF assms] by (simp add: handleExport_def)

lemmas collection_defs = handleFileUpload_def handleGridUpload_def createStickerItem_def
  markProcessing_def markDone_def markError_def setRole_def removeItem_def onSave_def

theorem handleExport_nothing_done_witness:
  "handleExport (\<lambda>k. True)
     \<lparr>stickers = run [FileUpload [(''a'', \<lparr>width = 1, height = 1, data = [0, 0, 0, 255]\<rparr>)],
                       ProcessStart ''a'', ProcessFail ''a''] [],
      config = \<lparr>count = 16, type = Standard\<rparr>, isExporting = False, exportProgress = 0\<rparr> =
   \<lparr>alert = Some ProcessFirst, saved = None,
    after = \<lparr>stickers = run [FileUpload [(''a'', \<lparr>width = 1, height = 1, data = [0, 0, 0, 255]\<rparr>)],
                       ProcessStart ''a'', ProcessFail ''a''] [],
      config = \<lparr>count = 16, type = Standard\<rparr>, isExporting = False, exportProgress = 0\<rparr>\<rparr>"
  using handleExport_nothing_done [of
     "\<lparr>stickers = run [FileUpload [(''a'', \<lparr>width = 1, height = 1, data = [0, 0, 0, 255]\<rparr>)],
                       ProcessStart ''a'', ProcessFail ''a''] [],
      config = \<lparr>count = 16, type = Standard\<rparr>, isExporting = False, exportProgress = 0\<rparr>" "\<lambda>k. True"]
  by (simp add: collection_defs)

text \<open>
  C1. Every raster read by export should come from a done item. The main image is looked
  up among all items, not among the done ones: after uploading a file \<open>a\<close>, flagging it
  main, and adding a grid-cropped item \<open>b\<close>, export runs to the resize steps, resolves the
  main image to \<open>a\<close>, which is pending and has no processed raster, and ends with the
  export-failed notice.
\<close>

theorem handleExport_main_not_done:
  "map_option status
     (mainItem (run [FileUpload [(''a'', \<lparr>width = 1, height = 1, data = [0, 0, 0, 255]\<rparr>)],
                     SetRole ''a'' Main,
                     GridUpload [(''b'', \<lparr>width = 1, height = 1, data = [0, 0, 0, 255]\<rparr>)]] []))
     = Some Pending \<and>
   map_option processedBlob
     (mainItem (run [FileUpload [(''a'', \<lparr>width = 1, height = 1, data = [0, 0, 0, 255]\<rparr>)],
                     SetRole ''a'' Main,
                     GridUpload [(''b'', \<lparr>width = 1, height = 1, data = [0, 0, 0, 255]\<rparr>)]] []))
     = Some None \<and>
   alert (handleExport (\<lambda>k. True)
     \<lparr>stickers = run [FileUpload [(''a'', \<lparr>width = 1, height = 1, data = [0, 0, 0, 255]\<rparr>)],
                     SetRole ''a'' Main,
                     GridUpload [(''b'', \<lparr>width = 1, height = 1, data = [0, 0, 0, 255]\<rparr>)]] [],
      config = \<lparr>count = 16, type = Standard\<rparr>, isExporting = False, exportProgress = 0\<rparr>)
     = Some ExportFailed"
  by (simp add: collection_defs mainItem_def tabItem_def doneStickers_def handleExport_def
        sticker_loop.simps resizeToLineSpec_def Let_def)

text \<open>
  C6. With at least one done item export should produce the numbered stickers,
  \<open>main.png\<close> and \<open>tab.png\<close>. In the collection above, which has one done item, no
  archive is saved at all.
\<close>

theorem handleExport_no_archive:
  "map item_id
     (doneStickers (run [FileUpload [(''a'', \<lparr>width = 1, height = 1, data = [0, 0, 0, 255]\<rparr>)],
                     SetRole ''a'' Main,
                     GridUpload [(''b'', \<lparr>width = 1, height = 1, data = [0, 0, 0, 255]\<rparr>)]] []))
     = [''b''] \<and>
   saved (handleExport (\<lambda>k. True)
     \<lparr>stickers = run [FileUpload [(''a'', \<lparr>width = 1, height = 1, data = [0, 0, 0, 255]\<rparr>)],
                     SetRole ''a'' Main,
                     GridUpload [(''b'', \<lparr>width = 1, height = 1, data = [0, 0, 0, 255]\<rparr>)]] [],
      config = \<lparr>count = 16, type = Standard\<rparr>, isExporting = False, exportProgress = 0\<rparr>)
     = None"
  by (simp add: collection_defs mainItem_def tabItem_def doneStickers_def handleExport_def
        sticker_loop.simps resizeToLineSpec_def Let_def)

text \<open>
  C9, as stated, fails: \<open>processOne\<close> sets the status of an item to processing, and to
  error when matting fails, without clearing its processed raster, and \<open>processAll\<close>
  decides which items to process on the list it closed over. Two files \<open>z\<close> and \<open>a\<close> are
  uploaded and \<open>processAll\<close> starts on \<open>z\<close>; while it waits, a touch-up session on \<open>a\<close>
  is saved; when \<open>z\<close> is done, \<open>processAll\<close> goes on to \<open>a\<close>, pending in its list. Now
  \<open>a\<close> is processing, and after a failed matting in error, with the raster of the
  session still in place.
\<close>

theorem reprocessed_item_keeps_blob:
  "map (\<lambda>s. (item_id s, status s, processedBlob s))
     (run [FileUpload [(''z'', \<lparr>width = 1, height = 1, data = [0, 0, 0, 255]\<rparr>),
                       (''a'', \<lparr>width = 1, height = 1, data = [9, 9, 9, 255]\<rparr>)],
           ProcessStart ''z'',
           Save ''a'' \<lparr>width = 1, height = 1, data = [9, 9, 9, 0]\<rparr> White 240,
           ProcessDone ''z'' \<lparr>width = 1, height = 1, data = [0, 0, 0, 255]\<rparr>,
           ProcessStart ''a''] [])
     = [(''z'', Done, Some \<lparr>width = 1, height = 1, data = [0, 0, 0, 255]\<rparr>),
        (''a'', Processing, Some \<lparr>width = 1, height = 1, data = [9, 9, 9, 0]\<rparr>)] \<and>
   map (\<lambda>s. (item_id s, status s, processedBlob s))
     (run [FileUpload [(''z'', \<lparr>width = 1, height = 1, data = [0, 0, 0, 255]\<rparr>),
                       (''a'', \<lparr>width = 1, height = 1, data = [9, 9, 9, 255]\<rparr>)],
           ProcessStart ''z'',
           Save ''a'' \<lparr>width = 1, height = 1, data = [9, 9, 9, 0]\<rparr> White 240,
           ProcessDone ''z'' \<lparr>width = 1, height = 1, data = [0, 0, 0, 255]\<rparr>,
           ProcessStart ''a'', ProcessFail ''a''] [])
     = [(''z'', Done, Some \<lparr>width = 1, height = 1, data = [0, 0, 0, 255]\<rparr>),
        (''a'', Error, Some \<lparr>width = 1, height = 1, data = [9, 9, 9, 0]\<rparr>)]"
  by (simp add: collection_defs)

lemma apply_update_done_has_blob:
  "done_has_blob ss \<Longrightarrow> done_has_blob (apply_update u ss)"
  by (cases u) (auto simp add: done_has_blob_def collection_defs Let_def set_zip split: if_splits)

lemma apply_update_blob_iff_done:
  "blob_iff_done ss \<Longrightarrow> spares_done u ss \<Longrightarrow> blob_iff_done (apply_update u ss)"
  by (cases u)
    (auto simp add: blob_iff_done_def collection_defs Let_def set_zip list_all_iff split: if_splits)

lemma run_done_has_blob: "done_has_blob ss \<Longrightarrow> done_has_blob (run us ss)"
  by (induction us arbitrary: ss) (simp_all add: apply_update_done_has_blob)

lemma run_blob_iff_done: "blob_iff_done ss \<Longrightarrow> guarded us ss \<Longrightarrow> blob_iff_done (run us ss)"
  by (induction us arbitrary: ss) (simp_all add: apply_update_blob_iff_done)

text \<open>
  C9, amended. In every collection reached from the empty one by any sequence of
  updates (upload, grid-crop, start, success and failure of processing, save of a touch-up
  session, role assignment, removal), every item whose status is done has a processed
  raster. If moreover processing starts and fails only on items that are not done at that
  moment, an item has a processed raster if and only if its status is done.
\<close>

theorem reachable_done_has_blob:
  "(\<forall>s \<in> set (run us []). status s = Done \<longrightarrow> processedBlob s \<noteq> None) \<and>
   (guarded us [] \<longrightarrow>
      (\<forall>s \<in> set (run us []). (processedBlob s \<noteq> None) = (status s = Done)))"
proof -
  have "done_has_blob []" "blob_iff_done []"
    by (simp_all add: done_has_blob_def blob_iff_done_def)
  then show ?thesis
    using run_done_has_blob [of "[]" us] run_blob_iff_done [of "[]" us]
    by (simp add: done_has_blob_def blob_iff_done_def)
qed

theorem reachable_done_has_blob_witness:
  "guarded [FileUpload [(''a'', \<lparr>width = 1, height = 1, data = [0, 0, 0, 255]\<rparr>)],
            ProcessStart ''a'',
            ProcessDone ''a'' \<lparr>width = 1, height = 1, data = [0, 0, 0, 255]\<rparr>,
            ProcessStart ''b''] [] \<and>
   list_all (\<lambda>s. (processedBlob s \<noteq> None) = (status s = Done))
     (run [FileUpload [(''a'', \<lparr>width = 1, height = 1, data = [0, 0, 0, 255]\<rparr>)],
            ProcessStart ''a'',
            ProcessDone ''a'' \<lparr>width = 1, height = 1, data = [0, 0, 0, 255]\<rparr>,
            ProcessStart ''b''] []) \<and>
   map status
     (run [FileUpload [(''a'', \<lparr>width = 1, height = 1, data = [0, 0, 0, 255]\<rparr>)],
            ProcessStart ''a'',
            ProcessDone ''a'' \<lparr>width = 1, height = 1, data = [0, 0, 0, 255]\<rparr>,
            ProcessStart ''b''] []) = [Done]"
  using reachable_done_has_blob [of
    "[FileUpload [(''a'', \<lparr>width = 1, height = 1, data = [0, 0, 0, 255]\<rparr>)],
            ProcessStart ''a'',
            ProcessDone ''a'' \<lparr>width = 1, height = 1, data = [0, 0, 0, 255]\<rparr>,
            ProcessStart ''b'']"]
  by (simp add: collection_defs list_all_iff)

text \<open>
  \<open>processOne\<close> is one of three runs of updates, and \<open>processAll\<close>, run to its end on a
  collection with distinct identifiers without anything happening in between, starts
  processing on items that are not done only: it keeps the equivalence between having a
  processed raster and being done.
\<close>

lemma processOne_as_updates:
  "processOne ctx seen ident prev = prev \<or>
   (\<exists>blob. processOne ctx seen ident prev = run [ProcessStart ident, ProcessDone ident blob] prev) \<or>
   processOne ctx seen ident prev = run [ProcessStart ident, ProcessFail ident] prev"
proof (cases "find (\<lambda>s. item_id s = ident) seen")
  case None
  then show ?thesis by (simp add: processOne_def)
next
  case (Some item)
  show ?thesis
  proof (cases "removeBackground ctx (previewUrl item) (mode (settings item))
                  (threshold (settings item))")
    case (Inl e)
    with Some show ?thesis by (simp add: processOne_def)
  next
    case (Inr blob)
    with Some have "processOne ctx seen ident prev = run [ProcessStart ident, ProcessDone ident blob] prev"
      by (simp add: processOne_def)
    then show ?thesis by blast
  qed
qed

lemma processOne_blob_iff_done:
  assumes "blob_iff_done prev"
    and "\<forall>x \<in> set prev. item_id x = ident \<longrightarrow> status x \<noteq> Done"
  shows "blob_iff_done (processOne ctx seen ident prev)"
proof -
  have ok: "spares_done (ProcessStart ident) prev"
    using assms(2) by (simp add: list_all_iff)
  have "status x \<noteq> Done" if "x \<in> set (markProcessing ident prev)" "item_id x = ident" for x
  proof -
    from that(1) obtain y
      where "x = (if item_id y = ident then y\<lparr>status := Processing\<rparr> else y)"
      unfolding markProcessing_def set_map by (rule imageE)
    with that(2) show ?thesis
      by (cases "item_id y = ident") simp_all
  qed
  then have failing: "spares_done (ProcessFail ident) (markProcessing ident prev)"
    unfolding spares_done.simps list_all_iff by blast
  have g1: "guarded [ProcessStart ident, ProcessDone ident b] prev" for b
    using ok by simp
  have g2: "guarded [ProcessStart ident, ProcessFail ident] prev"
    using ok failing by simp
  from processOne_as_updates [of ctx seen ident prev]
  consider "processOne ctx seen ident prev = prev"
    | blob where "processOne ctx seen ident prev = run [ProcessStart ident, ProcessDone ident blob] prev"
    | "processOne ctx seen ident prev = run [ProcessStart ident, ProcessFail ident] prev"
    by blast
  then show ?thesis
  proof cases
    case 1
    with assms(1) show ?thesis by simp
  next
    case 2
    from run_blob_iff_done [OF assms(1) g1 [of blob]] show ?thesis
      unfolding 2 .
  next
    case 3
    from run_blob_iff_done [OF assms(1) g2] show ?thesis
      unfolding 3 .
  qed
qed

lemma mark_other_ids:
  assumes "item_id x \<noteq> ident"
  shows "x \<in> set (markProcessing ident prev) \<Longrightarrow> x \<in> set prev"
    and "x \<in> set (markDone ident blob prev) \<Longrightarrow> x \<in> set prev"
    and "x \<in> set (markError ident prev) \<Longrightarrow> x \<in> set prev"
  using assms
  by (auto simp add: markProcessing_def markDone_def markError_def split: if_splits)

lemma processOne_other_ids:
  assumes "x \<in> set (processOne ctx seen ident prev)" and "item_id x \<noteq> ident"
  shows "x \<in> set prev"
proof -
  from processOne_as_updates [of ctx seen ident prev]
  consider "processOne ctx seen ident prev = prev"
    | blob where "processOne ctx seen ident prev = markDone ident blob (markProcessing ident prev)"
    | "processOne ctx seen ident prev = markError ident (markProcessing ident prev)"
    by auto
  then show ?thesis
  proof cases
    case 1
    with assms(1) show ?thesis by simp
  next
    case 2
    with assms(1) have "x \<in> set (markProcessing ident prev)"
      using mark_other_ids(2) [OF assms(2)] by simp
    then show ?thesis by (rule mark_other_ids(1) [OF assms(2)])
  next
    case 3
    with assms(1) have "x \<in> set (markProcessing ident prev)"
      using mark_other_ids(3) [OF assms(2)] by simp
    then show ?thesis by (rule mark_other_ids(1) [OF assms(2)])
  qed
qed

lemma processAll_loop_blob_iff_done:
  assumes "distinct (map item_id ss)"
    and "set todo \<subseteq> set ss" and "distinct (map item_id todo)"
    and "blob_iff_done prev"
    and "\<forall>x \<in> set prev. item_id x \<in> item_id ` set todo \<longrightarrow> x \<in> set ss"
  shows "blob_iff_done
     (foldl (\<lambda>prev s. if status s \<noteq> Done then processOne (ctx (item_id s)) ss (item_id s) prev
                       else prev) prev todo)"
  using assms(2-5)
proof (induction todo arbitrary: prev)
  case Nil
  then show ?case by simp
next
  case (Cons s rest)
  let ?step = "if status s \<noteq> Done then processOne (ctx (item_id s)) ss (item_id s) prev else prev"
  have s: "s \<in> set ss" using Cons.prems(1) by simp
  have same: "x = s" if "x \<in> set ss" "item_id x = item_id s" for x
  proof -
    from assms(1) have "inj_on item_id (set ss)" by (simp add: distinct_map)
    with that s show ?thesis by (simp add: inj_on_def)
  qed
  have inv: "blob_iff_done ?step"
  proof (cases "status s = Done")
    case True
    with Cons.prems(3) show ?thesis by simp
  next
    case False
    have "\<forall>x \<in> set prev. item_id x = item_id s \<longrightarrow> status x \<noteq> Done"
    proof (intro ballI impI)
      fix x assume "x \<in> set prev" "item_id x = item_id s"
      with Cons.prems(4) have "x \<in> set ss" by simp
      with same \<open>item_id x = item_id s\<close> have "x = s" by blast
      with False show "status x \<noteq> Done" by simp
    qed
    with Cons.prems(3) False show ?thesis
      by (simp add: processOne_blob_iff_done)
  qed
  have fresh: "\<forall>x \<in> set ?step. item_id x \<in> item_id ` set rest \<longrightarrow> x \<in> set ss"
  proof (intro ballI impI)
    fix x assume x: "x \<in> set ?step" "item_id x \<in> item_id ` set rest"
    from Cons.prems(2) have "item_id s \<notin> item_id ` set rest" by simp
    with x(2) have ne: "item_id x \<noteq> item_id s" by auto
    from x(1) have "x \<in> set prev"
      using processOne_other_ids [OF _ ne] by (simp split: if_splits)
    with Cons.prems(4) x(2) show "x \<in> set ss" by simp
  qed
  from Cons.prems(1,2) have "set rest \<subseteq> set ss" "distinct (map item_id rest)" by simp_all
  from Cons.IH [OF this inv fresh] show ?case by simp
qed

lemma processAll_blob_iff_done:
  assumes "distinct (map item_id ss)" and "blob_iff_done ss"
  shows "blob_iff_done (processAll ctx ss)"
  unfolding processAll_def
  using assms by (intro processAll_loop_blob_iff_done) simp_all

lemma toString_two_digits:
  assumes "n < 100"
  shows "padStart (toString n) 2 (CHR ''0'') =
           [''0123456789'' ! (n div 10), ''0123456789'' ! (n mod 10)]"
proof (cases "n < 10")
  case True
  then show ?thesis
    by (subst toString.simps) (simp add: padStart_def)
next
  case False
  with assms have "n div 10 < 10" by simp
  then have "toString (n div 10) = [''0123456789'' ! (n div 10)]"
    by (subst toString.simps) simp
  with False show ?thesis
    by (subst toString.simps) (simp add: padStart_def)
qed

lemma filename_two_digits:
  "i < 99 \<Longrightarrow>
   filename i = [''0123456789'' ! ((i + 1) div 10), ''0123456789'' ! ((i + 1) mod 10)] @ ''.png''"
  by (simp add: filename_def toString_two_digits)

lemma sticker_loop_files:
  assumes "exportCount \<le> length done"
    and "\<forall>s \<in> set done. processedBlob s \<noteq> None"
    and "n = exportCount - i" and "i \<le> exportCount"
  shows "\<exists>files. sticker_loop (\<lambda>k. True) done exportCount w h i folder = Inr (folder @ files) \<and>
           length files = n \<and>
           (\<forall>j<n. fst (files ! j) = filename (i + j) \<and>
                  canvas_width (snd (files ! j)) = w \<and> canvas_height (snd (files ! j)) = h \<and>
                  processedBlob (done ! (i + j)) = Some (source (snd (files ! j))))"
  using assms(3,4)
proof (induction n arbitrary: i folder)
  case 0
  then have "\<not> i < exportCount" by simp
  then have "sticker_loop (\<lambda>k. True) done exportCount w h i folder = Inr (folder @ [])"
    by (subst sticker_loop.simps) simp
  then show ?case by blast
next
  case (Suc n)
  then have i: "i < exportCount" by simp
  with assms(1) have "done ! i \<in> set done" by simp
  with assms(2) obtain img where img: "processedBlob (done ! i) = Some img" by blast
  obtain r where r: "resizeToLineSpec True (Some img) w h 10 = Inr r"
    "canvas_width r = w" "canvas_height r = h" "source r = img"
    using resizeToLineSpec_canvas by blast
  from Suc.prems have "n = exportCount - (i + 1)" "i + 1 \<le> exportCount" by simp_all
  from Suc.IH [OF this, of "folder @ [(filename i, r)]"]
  obtain files where files:
    "sticker_loop (\<lambda>k. True) done exportCount w h (i + 1) (folder @ [(filename i, r)]) =
       Inr ((folder @ [(filename i, r)]) @ files)"
    "length files = n"
    "\<forall>j<n. fst (files ! j) = filename (i + 1 + j) \<and>
            canvas_width (snd (files ! j)) = w \<and> canvas_height (snd (files ! j)) = h \<and>
            processedBlob (done ! (i + 1 + j)) = Some (source (snd (files ! j)))"
    by blast
  have run: "sticker_loop (\<lambda>k. True) done exportCount w h i folder =
               Inr (folder @ (filename i, r) # files)"
    using i img r(1) files(1) by (subst sticker_loop.simps) simp
  have "fst (((filename i, r) # files) ! j) = filename (i + j) \<and>
        canvas_width (snd (((filename i, r) # files) ! j)) = w \<and>
        canvas_height (snd (((filename i, r) # files) ! j)) = h \<and>
        processedBlob (done ! (i + j)) = Some (source (snd (((filename i, r) # files) ! j)))"
    if "j < Suc n" for j
  proof (cases j)
    case 0
    with img r show ?thesis by simp
  next
    case (Suc j')
    with that have "j' < n" by simp
    with files(3) Suc show ?thesis by simp
  qed
  with run files(2) show ?case
    by (intro exI [of _ "(filename i, r) # files"]) simp
qed

text \<open>
  Where every item flagged main or tab has a processed raster and every resize gets its
  context, export of a collection with at least one done item saves an archive named after
  the export count, holding the first \<open>min n count\<close> done items under their sequence
  numbers at the sticker size of the pack type, then \<open>main.png\<close> and \<open>tab.png\<close> at their
  sizes.
\<close>

lemma handleExport_artifacts:
  assumes "doneStickers (stickers st) \<noteq> []"
    and "\<forall>s \<in> set (stickers st). isMain s \<or> isTab s \<longrightarrow> processedBlob s \<noteq> None"
  shows "\<exists>files. alert (handleExport (\<lambda>k. True) st) = None \<and>
    saved (handleExport (\<lambda>k. True) st) =
      Some (''LINE_Stickers_'' @
              toString (min (length (doneStickers (stickers st))) (count (config st))) @ ''.zip'',
            files) \<and>
    length files = min (length (doneStickers (stickers st))) (count (config st)) + 2 \<and>
    (\<forall>i < min (length (doneStickers (stickers st))) (count (config st)).
       fst (files ! i) = filename i \<and>
       processedBlob (doneStickers (stickers st) ! i) = Some (source (snd (files ! i))) \<and>
       canvas_width (snd (files ! i)) = (if type (config st) = Fullscreen then 480 else 370) \<and>
       canvas_height (snd (files ! i)) = (if type (config st) = Fullscreen then 480 else 320)) \<and>
    fst (files ! min (length (doneStickers (stickers st))) (count (config st))) = ''main.png'' \<and>
    canvas_width (snd (files ! min (length (doneStickers (stickers st))) (count (config st)))) =
      (if type (config st) = Fullscreen then 480 else 240) \<and>
    canvas_height (snd (files ! min (length (doneStickers (stickers st))) (count (config st)))) =
      (if type (config st) = Fullscreen then 480 else 240) \<and>
    fst (files ! (min (length (doneStickers (stickers st))) (count (config st)) + 1)) = ''tab.png'' \<and>
    canvas_width (snd (files ! (min (length (doneStickers (stickers st))) (count (config st)) + 1))) = 96 \<and>
    canvas_height (snd (files ! (min (length (doneStickers (stickers st))) (count (config st)) + 1))) = 74"
proof -
  let ?done = "doneStickers (stickers st)"
  let ?n = "min (length ?done) (count (config st))"
  let ?w = "if type (config st) = Fullscreen then 480 else 370 :: nat"
  let ?h = "if type (config st) = Fullscreen then 480 else 320 :: nat"
  let ?ms = "if type (config st) = Fullscreen then 480 else 240 :: nat"
  have blobs: "\<forall>s \<in> set ?done. processedBlob s \<noteq> None"
    by (simp add: doneStickers_def)
  from sticker_loop_files [OF _ blobs, of ?n ?n 0 ?w ?h "[]"]
  obtain files where files:
    "sticker_loop (\<lambda>k. True) ?done ?n ?w ?h 0 [] = Inr files" "length files = ?n"
    "\<forall>j<?n. fst (files ! j) = filename j \<and> canvas_width (snd (files ! j)) = ?w \<and>
        canvas_height (snd (files ! j)) = ?h \<and>
        processedBlob (?done ! j) = Some (source (snd (files ! j)))"
    by auto
  from assms(1) obtain first rest where first: "?done = first # rest"
    by (cases ?done) auto
  then have "first \<in> set ?done" by simp
  with blobs have fb: "processedBlob first \<noteq> None" by blast
  have "\<exists>m. mainItem (stickers st) = Some m \<and> processedBlob m \<noteq> None"
  proof (cases "find isMain (stickers st)")
    case None
    with first fb show ?thesis by (simp add: mainItem_def)
  next
    case (Some s)
    then have "isMain s" "s \<in> set (stickers st)"
      by (auto simp add: find_Some_iff)
    with assms(2) Some show ?thesis by (auto simp add: mainItem_def)
  qed
  then obtain m mi where m: "mainItem (stickers st) = Some m" "processedBlob m = Some mi"
    by auto
  have "\<exists>t. tabItem (stickers st) = Some t \<and> processedBlob t \<noteq> None"
  proof (cases "find isTab (stickers st)")
    case None
    with first fb show ?thesis by (simp add: tabItem_def)
  next
    case (Some s)
    then have "isTab s" "s \<in> set (stickers st)"
      by (auto simp add: find_Some_iff)
    with assms(2) Some show ?thesis by (auto simp add: tabItem_def)
  qed
  then obtain t ti where t: "tabItem (stickers st) = Some t" "processedBlob t = Some ti"
    by auto
  obtain mainBlob where mainBlob: "resizeToLineSpec True (Some mi) ?ms ?ms 10 = Inr mainBlob"
    "canvas_width mainBlob = ?ms" "canvas_height mainBlob = ?ms"
    using resizeToLineSpec_canvas by blast
  obtain tabBlob where tabBlob: "resizeToLineSpec True (Some ti) 96 74 10 = Inr tabBlob"
    "canvas_width tabBlob = 96" "canvas_height tabBlob = 74"
    using resizeToLineSpec_canvas by blast
  let ?all = "files @ [(''main.png'', mainBlob), (''tab.png'', tabBlob)]"
  have result: "handleExport (\<lambda>k. True) st =
     \<lparr>alert = None, saved = Some (''LINE_Stickers_'' @ toString ?n @ ''.zip'', ?all),
      after = st\<lparr>isExporting := False, exportProgress := 0\<rparr>\<rparr>"
    using assms(1) files(1) m t mainBlob(1) tabBlob(1)
    by (simp add: handleExport_def Let_def)
  have "\<forall>i<?n. fst (?all ! i) = filename i \<and>
       processedBlob (?done ! i) = Some (source (snd (?all ! i))) \<and>
       canvas_width (snd (?all ! i)) = ?w \<and> canvas_height (snd (?all ! i)) = ?h"
    using files(2,3) by (simp add: nth_append)
  moreover have "?all ! length files = (''main.png'', mainBlob)"
    "?all ! (length files + 1) = (''tab.png'', tabBlob)"
    by (simp_all add: nth_append)
  then have "?all ! ?n = (''main.png'', mainBlob)" "?all ! (?n + 1) = (''tab.png'', tabBlob)"
    unfolding files(2) .
  moreover have "length ?all = ?n + 2" using files(2) by simp
  ultimately show ?thesis
    using result mainBlob(2,3) tabBlob(2,3)
    by (intro exI [of _ ?all]) (simp del: One_nat_def)
qed

end
